theory Spec2Isabelle
  imports Main "HOL-Library.AList"
begin

section \<open>Insertion-ordered maps\<close>

text \<open>
  The program keeps its tables in ES6 \<^verbatim>\<open>Map\<close>s and MobX \<^verbatim>\<open>observable.map\<close>s.
  Both iterate in insertion order, \<^verbatim>\<open>set\<close> on a key that is present replaces the value
  in place, \<^verbatim>\<open>set\<close> on a new key appends, and \<^verbatim>\<open>delete\<close> removes the entry.  They are
  modelled as association lists with distinct keys; \<^const>\<open>AList.update\<close> and
  \<^const>\<open>AList.delete\<close> are exactly these two operations.
\<close>

type_synonym ('k, 'v) ObservableMap = "('k \<times> 'v) list"

abbreviation map_has :: "'k \<Rightarrow> ('k, 'v) ObservableMap \<Rightarrow> bool" where
  "map_has k m \<equiv> k \<in> fst ` set m"

abbreviation map_get :: "('k, 'v) ObservableMap \<Rightarrow> 'k \<Rightarrow> 'v option" where
  "map_get m k \<equiv> map_of m k"

abbreviation map_set :: "'k \<Rightarrow> 'v \<Rightarrow> ('k, 'v) ObservableMap \<Rightarrow> ('k, 'v) ObservableMap" where
  "map_set k v m \<equiv> AList.update k v m"

abbreviation map_delete :: "'k \<Rightarrow> ('k, 'v) ObservableMap \<Rightarrow> ('k, 'v) ObservableMap" where
  "map_delete k m \<equiv> AList.delete k m"

abbreviation map_keys :: "('k, 'v) ObservableMap \<Rightarrow> 'k list" where
  "map_keys m \<equiv> map fst m"

abbreviation map_values :: "('k, 'v) ObservableMap \<Rightarrow> 'v list" where
  "map_values m \<equiv> map snd m"

text \<open>\<^verbatim>\<open>new Map(entries)\<close>: the entries are \<^verbatim>\<open>set\<close> one after the other, so a key
  that occurs twice keeps the position of its first entry and the value of its last.\<close>

fun Map_new :: "('k \<times> 'v) list \<Rightarrow> ('k, 'v) ObservableMap \<Rightarrow> ('k, 'v) ObservableMap" where
  "Map_new [] m = m"
| "Map_new ((k, v) # es) m = Map_new es (map_set k v m)"


section \<open>The catalog entity registry (catalog-entity-registry.ts)\<close>

text \<open>
  A catalog entity carries the fields the registry and the sync source read or write:
  \<^verbatim>\<open>apiVersion\<close> and \<^verbatim>\<open>kind\<close> (the filter of \<^verbatim>\<open>getItemsForApiKind\<close>), the name of
  the context it stands for, and \<^verbatim>\<open>metadata.labels\<close>.
\<close>

record CatalogEntity =
  apiVersion :: string
  kind :: string
  entityName :: string
  labels :: "(string, string) ObservableMap"

text \<open>
  An \<^verbatim>\<open>IComputedValue<CatalogEntity[]>\<close> is a derivation over observable state: reading it
  (\<^verbatim>\<open>.get()\<close>) yields the collection the current state \<open>'w\<close> determines.  The registry's
  only field is \<^verbatim>\<open>sources\<close>, a map from source id to computed value.
\<close>

type_synonym ('w, 'e) IComputedValue = "'w \<Rightarrow> 'e list"

type_synonym ('w, 'e) CatalogEntityRegistry = "(string, ('w, 'e) IComputedValue) ObservableMap"

text \<open>\<^verbatim>\<open>addSource(id, source)\<close> wraps the observable array in \<^verbatim>\<open>computed(() => source)\<close>;
  reading the array in state \<open>w\<close> is again a function of the state.\<close>

definition addSource ::
  "string \<Rightarrow> ('w \<Rightarrow> 'e list) \<Rightarrow> ('w, 'e) CatalogEntityRegistry \<Rightarrow> ('w, 'e) CatalogEntityRegistry" where
  "addSource sid source reg = map_set sid (\<lambda>w. source w) reg"

definition addComputedSource ::
  "string \<Rightarrow> ('w, 'e) IComputedValue \<Rightarrow> ('w, 'e) CatalogEntityRegistry \<Rightarrow> ('w, 'e) CatalogEntityRegistry" where
  "addComputedSource sid source reg = map_set sid source reg"

definition removeSource ::
  "string \<Rightarrow> ('w, 'e) CatalogEntityRegistry \<Rightarrow> ('w, 'e) CatalogEntityRegistry" where
  "removeSource sid reg = map_delete sid reg"

text \<open>\<^verbatim>\<open>Array.from(this.sources.values()).flatMap(compVal => compVal.get())\<close>\<close>

definition items :: "('w, 'e) CatalogEntityRegistry \<Rightarrow> 'w \<Rightarrow> 'e list" where
  "items reg w = concat (map (\<lambda>compVal. compVal w) (map_values reg))"

definition getItemsForApiKind ::
  "('w, CatalogEntity) CatalogEntityRegistry \<Rightarrow> 'w \<Rightarrow> string \<Rightarrow> string \<Rightarrow> CatalogEntity list" where
  "getItemsForApiKind reg w apiVersion' kind' =
     filter (\<lambda>item. apiVersion item = apiVersion' \<and> kind item = kind') (items reg w)"

text \<open>The registry a sequence of registrations and removals builds, starting from the
  empty registry of the constructor.\<close>

datatype ('w, 'e) registry_op =
    AddSource string "'w \<Rightarrow> 'e list"
  | AddComputedSource string "('w, 'e) IComputedValue"
  | RemoveSource string

fun registry_apply ::
  "('w, 'e) registry_op \<Rightarrow> ('w, 'e) CatalogEntityRegistry \<Rightarrow> ('w, 'e) CatalogEntityRegistry" where
  "registry_apply (AddSource sid source) reg = addSource sid source reg"
| "registry_apply (AddComputedSource sid source) reg = addComputedSource sid source reg"
| "registry_apply (RemoveSource sid) reg = removeSource sid reg"

definition registry_after :: "('w, 'e) registry_op list \<Rightarrow> ('w, 'e) CatalogEntityRegistry" where
  "registry_after ops = fold registry_apply ops []"

text \<open>What is registered after a sequence of operations, told on finite maps: an
  addition binds the id (the last writer wins), a removal unbinds it.\<close>

fun registered_step ::
  "('w, 'e) registry_op \<Rightarrow> (string \<rightharpoonup> ('w, 'e) IComputedValue) \<Rightarrow> (string \<rightharpoonup> ('w, 'e) IComputedValue)" where
  "registered_step (AddSource sid source) m = m(sid \<mapsto> source)"
| "registered_step (AddComputedSource sid source) m = m(sid \<mapsto> source)"
| "registered_step (RemoveSource sid) m = m(sid := None)"

definition registered :: "('w, 'e) registry_op list \<Rightarrow> string \<rightharpoonup> ('w, 'e) IComputedValue" where
  "registered ops = fold registered_step ops Map.empty"


section \<open>The kubeconfig sync source (kubeconfig-sync.source.ts)\<close>


subsection \<open>Models, effects and collaborators\<close>

text \<open>The model \<^verbatim>\<open>configsToModels\<close> builds for one context:
  \<^verbatim>\<open>{ id: uuid.v4(), kubeConfigPath: filePath, contextName: config.currentContext }\<close>.\<close>

record ClusterModel =
  model_id :: nat
  kubeConfigPath :: string
  contextName :: string

text \<open>
  A \<^verbatim>\<open>Cluster\<close> is an object of the cluster module; the sync source constructs it, calls
  \<^verbatim>\<open>updateModel\<close> and \<^verbatim>\<open>disconnect\<close> on it and reads \<^verbatim>\<open>apiUrl\<close>.  An object is
  referred to by the number the constructor call that returned it got (its identity), and
  every call the sync source makes on a collaborator, every mutation of a unit's
  \<^verbatim>\<open>source\<close> map and every log line is appended to a trace, in program order.
\<close>

datatype level = Debug | Info | Warn

datatype effect =
    NewCluster ClusterModel
  | UpdateModel nat ClusterModel
  | Disconnect nat
  | SourceSet string nat
  | SourceDelete string
  | SourceClear
  | Log level string "(string \<times> string) list"

text \<open>\<^verbatim>\<open>uuid.v4()\<close> returns an id no earlier call returned: the ids are numbered.\<close>

record world =
  next_uuid :: nat
  next_cluster :: nat
  trace :: "effect list"

definition emit :: "effect \<Rightarrow> 'a world_scheme \<Rightarrow> 'a world_scheme" where
  "emit e w = w\<lparr>trace := trace w @ [e]\<rparr>"

definition uuid_v4 :: "'a world_scheme \<Rightarrow> nat \<times> 'a world_scheme" where
  "uuid_v4 w = (next_uuid w, w\<lparr>next_uuid := Suc (next_uuid w)\<rparr>)"

definition alloc_cluster :: "'a world_scheme \<Rightarrow> nat \<times> 'a world_scheme" where
  "alloc_cluster w = (next_cluster w, w\<lparr>next_cluster := Suc (next_cluster w)\<rparr>)"

text \<open>
  The functions of other modules the sync source calls (kube-helpers, cluster,
  cluster-manager) are parameters.  A function that can throw returns a sum, \<open>Inl\<close> the
  error's text: \<^verbatim>\<open>loadConfigFromString\<close> and \<^verbatim>\<open>splitConfig\<close> (the whole-buffer parse),
  \<^verbatim>\<open>validateKubeConfig\<close> (\<open>Some\<close> the error when it throws) and the \<^verbatim>\<open>Cluster\<close>
  constructor, which returns the new object's \<^verbatim>\<open>apiUrl\<close> (\<open>None\<close> for \<^verbatim>\<open>undefined\<close>).
  \<^verbatim>\<open>updateModel\<close>, \<^verbatim>\<open>disconnect\<close> and \<^verbatim>\<open>catalogEntityFromCluster\<close> are taken to return
  normally.
\<close>

record 'kc collaborators =
  loadConfigFromString :: "string \<Rightarrow> string + 'kc"
  splitConfig :: "'kc \<Rightarrow> string + 'kc list"
  currentContext :: "'kc \<Rightarrow> string"
  validateKubeConfig :: "'kc \<Rightarrow> string \<Rightarrow> string option"
  newCluster :: "ClusterModel \<Rightarrow> string + string option"
  catalogEntityFromCluster :: "nat \<Rightarrow> ClusterModel \<Rightarrow> CatalogEntity"

text \<open>\<^verbatim>\<open>splitConfig(loadConfigFromString(buf.toString("utf-8")))\<close>\<close>

definition parseConfigs :: "'kc collaborators \<Rightarrow> string \<Rightarrow> string + 'kc list" where
  "parseConfigs deps buf =
     (case loadConfigFromString deps buf of
        Inl error \<Rightarrow> Inl error
      | Inr kubeConfig \<Rightarrow> splitConfig deps kubeConfig)"

text \<open>JavaScript's \<^verbatim>\<open>!cluster.apiUrl\<close>: \<^verbatim>\<open>undefined\<close> and the empty string are falsy.\<close>

fun falsy :: "string option \<Rightarrow> bool" where
  "falsy None = True"
| "falsy (Some s) = (s = [])"


subsection \<open>configsToModels\<close>

text \<open>The first loop: each config is validated on its own inside \<^verbatim>\<open>try\<close>; a config that
  fails is logged at debug level and left out, and the loop goes on.\<close>

fun validConfigs ::
  "'kc collaborators \<Rightarrow> 'kc list \<Rightarrow> string \<Rightarrow> 'a world_scheme \<Rightarrow> 'kc list \<times> 'a world_scheme" where
  "validConfigs deps [] filePath w = ([], w)"
| "validConfigs deps (config # configs) filePath w =
     (case validateKubeConfig deps config (currentContext deps config) of
        None \<Rightarrow>
          (case validConfigs deps configs filePath w of
             (valid, w') \<Rightarrow> (config # valid, w'))
      | Some error \<Rightarrow>
          validConfigs deps configs filePath
            (emit (Log Debug (''[KUBECONFIG-SYNC]: context failed validation: '' @ error)
                     [(''context'', currentContext deps config), (''filePath'', filePath)]) w))"

text \<open>\<^verbatim>\<open>validConfigs.map(config => ({ id: uuid.v4(), ... }))\<close>\<close>

fun toModels ::
  "'kc collaborators \<Rightarrow> 'kc list \<Rightarrow> string \<Rightarrow> 'a world_scheme \<Rightarrow> ClusterModel list \<times> 'a world_scheme" where
  "toModels deps [] filePath w = ([], w)"
| "toModels deps (config # configs) filePath w =
     (case uuid_v4 w of
        (uuid, w1) \<Rightarrow>
          (case toModels deps configs filePath w1 of
             (models, w2) \<Rightarrow>
               (\<lparr>model_id = uuid, kubeConfigPath = filePath,
                  contextName = currentContext deps config\<rparr> # models, w2)))"

definition configsToModels ::
  "'kc collaborators \<Rightarrow> 'kc list \<Rightarrow> string \<Rightarrow> 'a world_scheme \<Rightarrow> ClusterModel list \<times> 'a world_scheme" where
  "configsToModels deps configs filePath w =
     (case validConfigs deps configs filePath w of
        (valid, w1) \<Rightarrow> toModels deps valid filePath w1)"


subsection \<open>computeDiff\<close>

text \<open>A unit's \<^verbatim>\<open>source\<close> map: context name to \<^verbatim>\<open>[cluster, entity]\<close>.\<close>

type_synonym RootSourceValue = "nat \<times> CatalogEntity"
type_synonym RootSource = "(string, RootSourceValue) ObservableMap"

text \<open>
  The body of the loop over the entries of \<^verbatim>\<open>source\<close> (lines 120 to 139), for the
  entry \<open>(name, v)\<close>.  A name without a model is disconnected and then deleted; a name
  with a model is updated and its model is taken out of \<^verbatim>\<open>models\<close>.
\<close>

fun diffEntry ::
  "string \<Rightarrow> string \<times> RootSourceValue \<Rightarrow>
   RootSource \<times> (string, ClusterModel) ObservableMap \<times> 'a world_scheme \<Rightarrow>
   RootSource \<times> (string, ClusterModel) ObservableMap \<times> 'a world_scheme" where
  "diffEntry filePath (name, v) (source, models, w) =
     (case map_get models name of
        None \<Rightarrow>
          (map_delete name source, models,
           emit (Log Debug ''[KUBECONFIG-SYNC]: Removed old cluster from sync''
                   [(''filePath'', filePath), (''contextName'', name)])
             (emit (SourceDelete name) (emit (Disconnect (fst v)) w)))
      | Some model \<Rightarrow>
          (source, map_delete name models,
           emit (Log Debug ''[KUBECONFIG-SYNC]: Updated old cluster from sync''
                   [(''filePath'', filePath), (''contextName'', name)])
             (emit (UpdateModel (fst v) model) w)))"

text \<open>
  The loop.  The only entry the body deletes from the map it iterates is the current
  one, so the loop visits the entries the map had when it started.
\<close>

definition diffExisting ::
  "string \<Rightarrow> RootSource \<Rightarrow> (string, ClusterModel) ObservableMap \<Rightarrow> 'a world_scheme \<Rightarrow>
   RootSource \<times> (string, ClusterModel) ObservableMap \<times> 'a world_scheme" where
  "diffExisting filePath source models w = fold (diffEntry filePath) source (source, models, w)"

text \<open>
  The body of the loop over what is left of \<^verbatim>\<open>models\<close> (lines 141 to 159).  Each
  construction runs in its own \<^verbatim>\<open>try\<close>: a constructor that throws, or returns a
  cluster with a falsy \<^verbatim>\<open>apiUrl\<close>, is logged as a warning and the loop goes on.
\<close>

fun addCluster ::
  "'kc collaborators \<Rightarrow> string \<Rightarrow> string \<times> ClusterModel \<Rightarrow> RootSource \<times> 'a world_scheme \<Rightarrow>
   RootSource \<times> 'a world_scheme" where
  "addCluster deps filePath (name, model) (source, w) =
     (case newCluster deps model of
        Inl error \<Rightarrow>
          (source,
           emit (Log Warn (''KUBECONFIG-SYNC]: Failed to create cluster from model: '' @ error)
                   [(''filePath'', filePath), (''contextName'', name)])
             (emit (NewCluster model) w))
      | Inr apiUrl \<Rightarrow>
          (case alloc_cluster (emit (NewCluster model) w) of
             (cluster, w1) \<Rightarrow>
               if falsy apiUrl then
                 (source,
                  emit (Log Warn (''KUBECONFIG-SYNC]: Failed to create cluster from model: ''
                                    @ ''Error: Cluster constructor failed, see above error'')
                          [(''filePath'', filePath), (''contextName'', name)]) w1)
               else
                 (let entity0 = catalogEntityFromCluster deps cluster model;
                      entity = entity0\<lparr>labels := map_set ''KUBECONFIG_SYNC'' filePath (labels entity0)\<rparr>
                  in (map_set name (cluster, entity) source,
                      emit (Log Debug ''[KUBECONFIG-SYNC]: Added new cluster from sync''
                              [(''filePath'', filePath), (''contextName'', name)])
                        (emit (SourceSet name cluster) w1)))))"

definition addNew ::
  "'kc collaborators \<Rightarrow> string \<Rightarrow> (string, ClusterModel) ObservableMap \<Rightarrow> RootSource \<Rightarrow>
   'a world_scheme \<Rightarrow> RootSource \<times> 'a world_scheme" where
  "addNew deps filePath models source w = fold (addCluster deps filePath) models (source, w)"

text \<open>The pass.  A throw of the parse lands in the outer \<^verbatim>\<open>catch\<close>: a warning, then
  \<^verbatim>\<open>source.clear()\<close>.\<close>

definition computeDiff ::
  "'kc collaborators \<Rightarrow> string \<Rightarrow> RootSource \<Rightarrow> nat \<Rightarrow> string \<Rightarrow> 'a world_scheme \<Rightarrow>
   RootSource \<times> 'a world_scheme" where
  "computeDiff deps buf source port filePath w =
     (case parseConfigs deps buf of
        Inl error \<Rightarrow>
          ([], emit SourceClear
                 (emit (Log Warn (''[KUBECONFIG-SYNC]: Failed to compute diff: '' @ error)
                          [(''filePath'', filePath)]) w))
      | Inr kubeconfigs \<Rightarrow>
          (case configsToModels deps kubeconfigs filePath w of
             (rawModels, w1) \<Rightarrow>
               (case diffExisting filePath source
                       (Map_new (map (\<lambda>m. (contextName m, m)) rawModels) []) w1 of
                  (source1, models1, w2) \<Rightarrow> addNew deps filePath models1 source1 w2)))"


subsection \<open>Describing a pass\<close>

text \<open>
  Names for what the statements about \<^const>\<open>computeDiff\<close> speak of: whether a config
  passes validation, the log line of one that does not, the model of a config, whether the
  construction of a model's cluster succeeds (the constructor returns and the \<^verbatim>\<open>apiUrl\<close>
  is truthy), whether the constructor returns an object at all, the entity of a new
  record, and the effects one iteration of either loop appends to the trace.
\<close>

definition passes :: "'kc collaborators \<Rightarrow> 'kc \<Rightarrow> bool" where
  "passes deps config = (validateKubeConfig deps config (currentContext deps config) = None)"

definition validationLog :: "'kc collaborators \<Rightarrow> string \<Rightarrow> 'kc \<Rightarrow> effect" where
  "validationLog deps filePath config =
     Log Debug (''[KUBECONFIG-SYNC]: context failed validation: ''
                  @ the (validateKubeConfig deps config (currentContext deps config)))
       [(''context'', currentContext deps config), (''filePath'', filePath)]"

definition modelOf :: "'kc collaborators \<Rightarrow> string \<Rightarrow> nat \<Rightarrow> 'kc \<Rightarrow> ClusterModel" where
  "modelOf deps filePath uuid config =
     \<lparr>model_id = uuid, kubeConfigPath = filePath, contextName = currentContext deps config\<rparr>"

definition diffEvents :: "string \<Rightarrow> (string, ClusterModel) ObservableMap \<Rightarrow> string \<times> RootSourceValue \<Rightarrow> effect list" where
  "diffEvents filePath models e =
     (case map_get models (fst e) of
        None \<Rightarrow>
          [Disconnect (fst (snd e)), SourceDelete (fst e),
           Log Debug ''[KUBECONFIG-SYNC]: Removed old cluster from sync''
             [(''filePath'', filePath), (''contextName'', fst e)]]
      | Some model \<Rightarrow>
          [UpdateModel (fst (snd e)) model,
           Log Debug ''[KUBECONFIG-SYNC]: Updated old cluster from sync''
             [(''filePath'', filePath), (''contextName'', fst e)]])"

definition constructs :: "'kc collaborators \<Rightarrow> ClusterModel \<Rightarrow> bool" where
  "constructs deps model = (case newCluster deps model of Inl error \<Rightarrow> False | Inr apiUrl \<Rightarrow> \<not> falsy apiUrl)"

definition allocs :: "'kc collaborators \<Rightarrow> ClusterModel \<Rightarrow> nat" where
  "allocs deps model = (case newCluster deps model of Inl error \<Rightarrow> 0 | Inr apiUrl \<Rightarrow> 1)"

definition entityFor :: "'kc collaborators \<Rightarrow> string \<Rightarrow> nat \<Rightarrow> ClusterModel \<Rightarrow> CatalogEntity" where
  "entityFor deps filePath cluster model =
     (catalogEntityFromCluster deps cluster model)
       \<lparr>labels := map_set ''KUBECONFIG_SYNC'' filePath (labels (catalogEntityFromCluster deps cluster model))\<rparr>"

definition addEvents :: "'kc collaborators \<Rightarrow> string \<Rightarrow> nat \<Rightarrow> string \<times> ClusterModel \<Rightarrow> effect list" where
  "addEvents deps filePath cluster e =
     NewCluster (snd e) #
     (if constructs deps (snd e) then
        [SourceSet (fst e) cluster,
         Log Debug ''[KUBECONFIG-SYNC]: Added new cluster from sync''
           [(''filePath'', filePath), (''contextName'', fst e)]]
      else
        [Log Warn (''KUBECONFIG-SYNC]: Failed to create cluster from model: '' @
                   (case newCluster deps (snd e) of
                      Inl error \<Rightarrow> error
                    | Inr apiUrl \<Rightarrow> ''Error: Cluster constructor failed, see above error''))
           [(''filePath'', filePath), (''contextName'', fst e)]])"

fun addNewEvents :: "'kc collaborators \<Rightarrow> string \<Rightarrow> nat \<Rightarrow> (string \<times> ClusterModel) list \<Rightarrow> effect list" where
  "addNewEvents deps filePath cluster [] = []"
| "addNewEvents deps filePath cluster (e # es) =
     addEvents deps filePath cluster e @ addNewEvents deps filePath (cluster + allocs deps (snd e)) es"

definition passModels ::
  "'kc collaborators \<Rightarrow> string \<Rightarrow> string \<Rightarrow> 'a world_scheme \<Rightarrow> (string, ClusterModel) ObservableMap" where
  "passModels deps buf filePath w =
     (case parseConfigs deps buf of
        Inl error \<Rightarrow> []
      | Inr kubeconfigs \<Rightarrow>
          Map_new (map (\<lambda>m. (contextName m, m)) (fst (configsToModels deps kubeconfigs filePath w))) [])"

text \<open>The effects one pass appends to the trace.\<close>

definition passEvents ::
  "'kc collaborators \<Rightarrow> string \<Rightarrow> RootSource \<Rightarrow> nat \<Rightarrow> string \<Rightarrow> 'a world_scheme \<Rightarrow> effect list" where
  "passEvents deps buf source port filePath w =
     drop (length (trace w)) (trace (snd (computeDiff deps buf source port filePath w)))"

text \<open>The effects that end a record's life: a \<^verbatim>\<open>disconnect()\<close> and a removal from the map.\<close>

fun lifecycle :: "effect \<Rightarrow> bool" where
  "lifecycle (Disconnect cluster) = True"
| "lifecycle (SourceDelete name) = True"
| "lifecycle SourceClear = True"
| "lifecycle e = False"


subsection \<open>diffChangedConfig and watchFileChanges\<close>

text \<open>
  Each call of \<^verbatim>\<open>diffChangedConfig\<close> opens a read stream with its own \<^verbatim>\<open>bufs\<close> and
  \<^verbatim>\<open>closed\<close> variables.  The streams of a unit are numbered in the order they are
  opened; the disposer the call returns is identified with the number of its stream.
\<close>

record reader =
  bufs :: "string list"
  closed :: bool

text \<open>
  What one call of \<^verbatim>\<open>watchFileChanges\<close> creates: the chokidar watcher (it emits until
  \<^verbatim>\<open>close()\<close>), the \<^verbatim>\<open>source\<close> map and the variable \<^verbatim>\<open>stopPrevious\<close>; with them the
  arguments the closures hold and the streams opened so far.
\<close>

record sync_unit =
  unit_filePath :: string
  unit_port :: nat
  unit_source :: RootSource
  readers :: "reader list"
  stopPrevious :: "nat option"
  watching :: bool

definition watchFileChanges :: "string \<Rightarrow> nat \<Rightarrow> sync_unit" where
  "watchFileChanges filePath port =
     \<lparr>unit_filePath = filePath, unit_port = port, unit_source = [], readers = [],
      stopPrevious = None, watching = True\<rparr>"

text \<open>\<^verbatim>\<open>computed(() => Array.from(source.values(), v => v[1]))\<close>\<close>

definition derivedSource :: "sync_unit \<Rightarrow> CatalogEntity list" where
  "derivedSource u = map snd (map_values (unit_source u))"

text \<open>The disposer \<^verbatim>\<open>watchFileChanges\<close> returns: \<^verbatim>\<open>() => watcher.close()\<close>.\<close>

definition closeWatcher :: "sync_unit \<Rightarrow> sync_unit" where
  "closeWatcher u = u\<lparr>watching := False\<rparr>"

text \<open>\<^verbatim>\<open>diffChangedConfig\<close> opens the stream, registers the three handlers and returns
  the disposer.\<close>

definition diffChangedConfig :: "sync_unit \<Rightarrow> nat \<times> sync_unit" where
  "diffChangedConfig u =
     (length (readers u), u\<lparr>readers := readers u @ [\<lparr>bufs = [], closed = False\<rparr>]\<rparr>)"

text \<open>The disposer of stream \<open>r\<close>: \<^verbatim>\<open>closed = true\<close>, then the calls that ask the stream
  to end (they change no variable of the program).\<close>

definition stopReader :: "nat \<Rightarrow> sync_unit \<Rightarrow> sync_unit" where
  "stopReader r u =
     (if r < length (readers u)
      then u\<lparr>readers := (readers u)[r := (readers u ! r)\<lparr>closed := True\<rparr>]\<rparr>
      else u)"

text \<open>\<^verbatim>\<open>stopPrevious?.()\<close>\<close>

definition callStopPrevious :: "sync_unit \<Rightarrow> sync_unit" where
  "callStopPrevious u = (case stopPrevious u of None \<Rightarrow> u | Some r \<Rightarrow> stopReader r u)"

datatype watcher_event = Change | Add | Unlink

datatype stream_event = Data string | Close | End

datatype unit_event = Watcher watcher_event | Stream nat stream_event

fun onWatcher :: "watcher_event \<Rightarrow> sync_unit \<Rightarrow> sync_unit" where
  "onWatcher Change u =
     (case diffChangedConfig (callStopPrevious u) of (r, u') \<Rightarrow> u'\<lparr>stopPrevious := Some r\<rparr>)"
| "onWatcher Add u =
     (case diffChangedConfig (callStopPrevious u) of (r, u') \<Rightarrow> u'\<lparr>stopPrevious := Some r\<rparr>)"
| "onWatcher Unlink u = callStopPrevious u"

text \<open>The handlers of stream \<open>r\<close>: \<^verbatim>\<open>data\<close> pushes the chunk, \<^verbatim>\<open>close\<close> sets the flag,
  \<^verbatim>\<open>end\<close> runs \<^verbatim>\<open>computeDiff\<close> on the concatenated chunks unless the flag is set.\<close>

fun onStream ::
  "'kc collaborators \<Rightarrow> nat \<Rightarrow> stream_event \<Rightarrow> sync_unit \<Rightarrow> 'a world_scheme \<Rightarrow>
   sync_unit \<times> 'a world_scheme" where
  "onStream deps r (Data chunk) u w =
     (u\<lparr>readers := (readers u)[r := (readers u ! r)\<lparr>bufs := bufs (readers u ! r) @ [chunk]\<rparr>]\<rparr>, w)"
| "onStream deps r Close u w =
     (u\<lparr>readers := (readers u)[r := (readers u ! r)\<lparr>closed := True\<rparr>]\<rparr>, w)"
| "onStream deps r End u w =
     (if \<not> closed (readers u ! r) then
        (case computeDiff deps (concat (bufs (readers u ! r))) (unit_source u) (unit_port u)
                (unit_filePath u) w of
           (source', w') \<Rightarrow> (u\<lparr>unit_source := source'\<rparr>, w'))
      else (u, w))"

text \<open>One event delivered to a unit.  A closed watcher emits nothing, and only a stream
  that was opened emits.\<close>

fun unitStep ::
  "'kc collaborators \<Rightarrow> unit_event \<Rightarrow> sync_unit \<times> 'a world_scheme \<Rightarrow> sync_unit \<times> 'a world_scheme" where
  "unitStep deps (Watcher e) (u, w) = (if watching u then (onWatcher e u, w) else (u, w))"
| "unitStep deps (Stream r e) (u, w) =
     (if r < length (readers u) then onStream deps r e u w else (u, w))"

definition unitRun ::
  "'kc collaborators \<Rightarrow> unit_event list \<Rightarrow> sync_unit \<times> 'a world_scheme \<Rightarrow> sync_unit \<times> 'a world_scheme" where
  "unitRun deps evs st = fold (unitStep deps) evs st"

text \<open>The discipline of \<^verbatim>\<open>stopPrevious\<close>: every stream but the one opened last has its
  \<^verbatim>\<open>closed\<close> flag set, and \<^verbatim>\<open>stopPrevious\<close> is the disposer of the stream opened last.\<close>

definition onlyLatestOpen :: "sync_unit \<Rightarrow> bool" where
  "onlyLatestOpen u =
     (list_all closed (butlast (readers u)) \<and>
      stopPrevious u = (if readers u = [] then None else Some (length (readers u) - 1)))"


subsection \<open>KubeconfigSyncManager and the watch list (kubeconfig-sync-store.ts)\<close>

text \<open>
  The whole state: the world above, the units created so far (a unit is referred to by
  its position), the registry's \<^verbatim>\<open>sources\<close>, the manager's \<^verbatim>\<open>sources\<close> (path to the pair
  of computed value and disposer of a unit, here the unit), \<^verbatim>\<open>syncing\<close> and
  \<^verbatim>\<open>syncListDisposer\<close>, and the store's \<^verbatim>\<open>files\<close> set with the listeners \<^verbatim>\<open>observe\<close>
  registered on it (the port the listener holds, and whether it is still registered).
\<close>

record system = world +
  units :: "sync_unit list"
  registry :: "(sync_unit list, CatalogEntity) CatalogEntityRegistry"
  sources :: "(string, nat) ObservableMap"
  syncing :: bool
  syncListDisposer :: "nat option"
  files :: "string list"
  observers :: "(nat \<times> bool) list"

definition initial :: "string list \<Rightarrow> system" where
  "initial fs =
     \<lparr>next_uuid = 0, next_cluster = 0, trace = [], units = [], registry = [], sources = [],
      syncing = False, syncListDisposer = None, files = fs, observers = []\<rparr>"

definition getSyncName :: "string \<Rightarrow> string" where
  "getSyncName file = ''lens:kube-sync:'' @ file"

text \<open>The computed value of unit \<open>k\<close>, read in the current units.\<close>

definition unitSource :: "nat \<Rightarrow> (sync_unit list, CatalogEntity) IComputedValue" where
  "unitSource k us = (if k < length us then derivedSource (us ! k) else [])"

definition startNewSync :: "string \<Rightarrow> nat \<Rightarrow> system \<Rightarrow> system" where
  "startNewSync filePath port s =
     (if map_has filePath (sources s) then s
      else
        (let s1 = emit (Log Info ''[KUBECONFIG-SYNC]: starting sync of file'' [(''filePath'', filePath)]) s;
             k = length (units s1);
             s2 = s1\<lparr>units := units s1 @ [watchFileChanges filePath port]\<rparr>;
             s3 = s2\<lparr>sources := map_set filePath k (sources s2)\<rparr>
         in s3\<lparr>registry := addComputedSource (getSyncName filePath) (unitSource k) (registry s3)\<rparr>))"

definition stopOldSync :: "string \<Rightarrow> system \<Rightarrow> system" where
  "stopOldSync filePath s =
     (if \<not> map_has filePath (sources s) then s
      else
        (let s1 = emit (Log Info ''[KUBECONFIG-SYNC]: stopping sync of file'' [(''filePath'', filePath)]) s;
             s2 = s1\<lparr>sources := map_delete filePath (sources s1)\<rparr>
         in s2\<lparr>registry := removeSource (getSyncName filePath) (registry s2)\<rparr>))"

text \<open>A change of the observable set \<^verbatim>\<open>kubeconfigSyncStore.files\<close>, and the listener
  \<^verbatim>\<open>startSync\<close> registers on it.\<close>

datatype set_change = SetAdd string | SetDelete string

fun syncListObserver :: "nat \<Rightarrow> set_change \<Rightarrow> system \<Rightarrow> system" where
  "syncListObserver port (SetAdd newValue) s = startNewSync newValue port s"
| "syncListObserver port (SetDelete oldValue) s = stopOldSync oldValue s"

definition startSync :: "nat \<Rightarrow> system \<Rightarrow> system" where
  "startSync port s =
     (if syncing s then s
      else
        (let s1 = emit (Log Info ''[KUBECONFIG-SYNC]: starting requested syncs'' []) s;
             s2 = fold (\<lambda>filePath. startNewSync filePath port) (files s1) s1;
             s3 = s2\<lparr>syncing := True\<rparr>
         in s3\<lparr>observers := observers s3 @ [(port, True)],
               syncListDisposer := Some (length (observers s3))\<rparr>))"

definition stopSync :: "system \<Rightarrow> system" where
  "stopSync s =
     (let s1 = (case syncListDisposer s of
                  None \<Rightarrow> s
                | Some d \<Rightarrow>
                    if d < length (observers s)
                    then s\<lparr>observers := (observers s)[d := (fst (observers s ! d), False)]\<rparr>
                    else s);
          s2 = fold stopOldSync (map_keys (sources s1)) s1
      in s2\<lparr>syncing := False\<rparr>)"

text \<open>The set notifies the listeners that are registered, in registration order.\<close>

definition notifyObservers :: "set_change \<Rightarrow> system \<Rightarrow> system" where
  "notifyObservers change s =
     fold (\<lambda>(port, active) s'. if active then syncListObserver port change s' else s')
       (observers s) s"

definition addSyncingFile :: "string \<Rightarrow> system \<Rightarrow> system" where
  "addSyncingFile file s =
     (if file \<in> set (files s) then s
      else notifyObservers (SetAdd file) (s\<lparr>files := files s @ [file]\<rparr>))"

definition removeSyncingFile :: "string \<Rightarrow> system \<Rightarrow> system" where
  "removeSyncingFile file s =
     (if file \<notin> set (files s) then s
      else notifyObservers (SetDelete file) (s\<lparr>files := removeAll file (files s)\<rparr>))"

text \<open>An event of unit \<open>k\<close>'s watcher or of one of its streams, in the whole state.\<close>

definition unitEvent :: "'kc collaborators \<Rightarrow> nat \<Rightarrow> unit_event \<Rightarrow> system \<Rightarrow> system" where
  "unitEvent deps k ev s =
     (if k < length (units s) then
        (case unitStep deps ev (units s ! k, s) of
           (u', s') \<Rightarrow> s'\<lparr>units := (units s')[k := u']\<rparr>)
      else s)"


subsection \<open>An instance of the collaborators\<close>

text \<open>
  A small instance on which the definitions can be run.  A buffer is a string, \<open>''!''\<close>
  is the buffer that does not parse, and every character of another buffer is one context
  definition, named by that character.  The context \<open>x\<close> fails validation, and the
  cluster of the context \<open>n\<close> is constructed without an \<^verbatim>\<open>apiUrl\<close>.
\<close>

definition example :: "string collaborators" where
  "example =
     \<lparr>loadConfigFromString = (\<lambda>buf. if buf = ''!'' then Inl ''YAMLException: bad indentation'' else Inr buf),
      splitConfig = (\<lambda>kubeConfig. Inr (map (\<lambda>c. [c]) kubeConfig)),
      currentContext = (\<lambda>config. config),
      validateKubeConfig = (\<lambda>config name.
         if name = ''x'' then Some ''Error: No valid cluster object provided in kubeconfig'' else None),
      newCluster = (\<lambda>model. if contextName model = ''n'' then Inr None else Inr (Some ''https://k'')),
      catalogEntityFromCluster = (\<lambda>cluster model.
         \<lparr>apiVersion = ''entity.k8slens.dev/v1alpha1'', kind = ''KubernetesCluster'',
          entityName = contextName model, labels = []\<rparr>)\<rparr>"

definition world0 :: world where
  "world0 = \<lparr>next_uuid = 0, next_cluster = 0, trace = []\<rparr>"

text \<open>A state with an active unit: syncing is started on the watch list \<open>c.yaml\<close>, the
  watcher reports the file, its first read completes with the context \<open>a\<close>, and a change
  of the file has started a second read that is still in flight.\<close>

definition deleteScenario :: system where
  "deleteScenario =
     unitEvent example 0 (Watcher Change)
       (unitEvent example 0 (Stream 0 End)
          (unitEvent example 0 (Stream 0 (Data ''a''))
             (unitEvent example 0 (Watcher Add)
                (startSync 0 (initial [''c.yaml''])))))"


section \<open>Properties of the registry\<close>

lemma registry_fold_distinct:
  "distinct (map_keys reg) \<Longrightarrow> distinct (map_keys (fold registry_apply ops reg))"
proof (induction ops arbitrary: reg)
  case Nil
  then show ?case by simp
next
  case (Cons a ops)
  have "distinct (map_keys (registry_apply a reg))"
    using Cons.prems
    by (cases a) (simp_all add: addSource_def addComputedSource_def removeSource_def
        distinct_update distinct_delete)
  then show ?case using Cons.IH by simp
qed

lemma registry_fold_lookup:
  "map_of (fold registry_apply ops reg) = fold registered_step ops (map_of reg)"
proof (induction ops arbitrary: reg)
  case Nil
  then show ?case by simp
next
  case (Cons a ops)
  have "map_of (registry_apply a reg) = registered_step a (map_of reg)"
    by (cases a) (simp_all add: addSource_def addComputedSource_def removeSource_def
        update_conv' delete_conv')
  then show ?case using Cons.IH [of "registry_apply a reg"] by simp
qed

lemma items_by_lookup:
  "distinct (map_keys reg) \<Longrightarrow>
   items reg w = concat (map (\<lambda>sid. case map_of reg sid of None \<Rightarrow> [] | Some compVal \<Rightarrow> compVal w) (map_keys reg))"
proof -
  assume d: "distinct (map_keys reg)"
  have "map (\<lambda>compVal. compVal w) (map_values reg)
      = map (\<lambda>sid. case map_of reg sid of None \<Rightarrow> [] | Some compVal \<Rightarrow> compVal w) (map_keys reg)"
    using d by (induction reg) (auto simp: rev_image_eqI)
  then show ?thesis unfolding items_def by (simp only:)
qed

lemma delete_update_fresh:
  "sid \<notin> fst ` set reg \<Longrightarrow> map_delete sid (map_set sid v reg) = reg"
  by (simp add: delete_update_same)

text \<open>
  \<^bold>\<open>C7.\<close> For the registry reached by any sequence of registrations and removals, the ids
  are distinct, the table binds exactly the sources currently registered, and \<open>items\<close>
  is the concatenation, in registration order, of what each registered source yields in
  the current state (a function of the state, so nothing is carried over from an earlier
  state).  For every registry state, adding a source under an id that is not present and
  then removing that id gives back the same registry, hence the same aggregate.
\<close>

theorem registry_items_concat_add_remove:
  "distinct (map_keys (registry_after ops)) \<and>
   map_of (registry_after ops) = registered ops \<and>
   items (registry_after ops) w =
     concat (map (\<lambda>sid. case registered ops sid of None \<Rightarrow> [] | Some compVal \<Rightarrow> compVal w)
       (map_keys (registry_after ops))) \<and>
   items reg w = concat (map (\<lambda>(sid, compVal). compVal w) reg) \<and>
   (\<not> map_has sid reg \<longrightarrow>
      items (addComputedSource sid source reg) w = items reg w @ source w \<and>
      removeSource sid (addComputedSource sid source reg) = reg \<and>
      removeSource sid (addSource sid source reg) = reg \<and>
      items (removeSource sid (addComputedSource sid source reg)) w = items reg w \<and>
      items (removeSource sid (addSource sid source reg)) w = items reg w)"
proof -
  have d: "distinct (map_keys (registry_after ops))"
    unfolding registry_after_def by (rule registry_fold_distinct) simp
  have l: "map_of (registry_after ops) = registered ops"
    unfolding registry_after_def registered_def by (simp add: registry_fold_lookup)
  have i: "items (registry_after ops) w =
     concat (map (\<lambda>sid. case registered ops sid of None \<Rightarrow> [] | Some compVal \<Rightarrow> compVal w)
       (map_keys (registry_after ops)))"
    using items_by_lookup [OF d, of w] by (simp add: l)
  have c: "items reg w = concat (map (\<lambda>(sid, compVal). compVal w) reg)"
    by (simp add: items_def case_prod_unfold comp_def)
  have r: "\<not> map_has sid reg \<longrightarrow>
      items (addComputedSource sid source reg) w = items reg w @ source w \<and>
      removeSource sid (addComputedSource sid source reg) = reg \<and>
      removeSource sid (addSource sid source reg) = reg \<and>
      items (removeSource sid (addComputedSource sid source reg)) w = items reg w \<and>
      items (removeSource sid (addSource sid source reg)) w = items reg w"
  proof
    assume fresh: "\<not> map_has sid reg"
    have a: "map_set sid source reg = reg @ [(sid, source)]"
      using fresh by (induction reg) auto
    have b: "map_delete sid (map_set sid source reg) = reg"
      using fresh by (rule delete_update_fresh)
    have "items (map_set sid source reg) w = items reg w @ source w"
      by (simp add: a items_def)
    then show "items (addComputedSource sid source reg) w = items reg w @ source w \<and>
      removeSource sid (addComputedSource sid source reg) = reg \<and>
      removeSource sid (addSource sid source reg) = reg \<and>
      items (removeSource sid (addComputedSource sid source reg)) w = items reg w \<and>
      items (removeSource sid (addSource sid source reg)) w = items reg w"
      by (simp add: addComputedSource_def addSource_def removeSource_def b)
  qed
  from d l i c r show ?thesis by blast
qed

theorem registry_items_concat_add_remove_witness:
  "\<not> map_has ''b'' [(''a'', \<lambda>w::nat. [w])] \<and>
   items (addComputedSource ''b'' (\<lambda>w. [Suc w]) [(''a'', \<lambda>w::nat. [w])]) 5 = [5, 6] \<and>
   items (removeSource ''b'' (addComputedSource ''b'' (\<lambda>w. [Suc w]) [(''a'', \<lambda>w::nat. [w])])) 5 = [5]"
  using registry_items_concat_add_remove
    [where ops = "[]" and w = "5::nat" and reg = "[(''a'', \<lambda>w::nat. [w])]" and sid = "''b''"
       and source = "\<lambda>w. [Suc w]"]
  by (simp add: items_def addComputedSource_def addSource_def removeSource_def)


section \<open>Properties of a reconciliation pass\<close>


subsection \<open>The loops as equations\<close>

lemma emit_trace [simp]: "trace (emit e w) = trace w @ [e]"
  and emit_next_uuid [simp]: "next_uuid (emit e w) = next_uuid w"
  and emit_next_cluster [simp]: "next_cluster (emit e w) = next_cluster w"
  by (simp_all add: emit_def)

lemma trace_append_nil: "w\<lparr>trace := trace w @ []\<rparr> = w"
  by simp

lemma validConfigs_eq:
  "validConfigs deps configs filePath w =
     (filter (passes deps) configs,
      w\<lparr>trace := trace w @ map (validationLog deps filePath) (filter (\<lambda>c. \<not> passes deps c) configs)\<rparr>)"
proof (induction configs arbitrary: w)
  case Nil
  then show ?case by simp
next
  case (Cons c cs)
  show ?case
  proof (cases "validateKubeConfig deps c (currentContext deps c)")
    case None
    then show ?thesis by (simp add: Cons.IH passes_def)
  next
    case (Some err)
    then show ?thesis by (simp add: Cons.IH passes_def validationLog_def emit_def)
  qed
qed

lemma toModels_eq:
  "toModels deps configs filePath w =
     (map (\<lambda>(i, c). modelOf deps filePath (next_uuid w + i) c) (enumerate 0 configs),
      w\<lparr>next_uuid := next_uuid w + length configs\<rparr>)"
proof (induction configs arbitrary: w)
  case Nil
  then show ?case by simp
next
  case (Cons c cs)
  have "map (\<lambda>(i, c). modelOf deps filePath (next_uuid w + i) c) (enumerate (Suc 0) cs)
      = map (\<lambda>(i, c). modelOf deps filePath (Suc (next_uuid w) + i) c) (enumerate 0 cs)"
    by (simp add: enumerate_Suc_eq map_prod_def comp_def case_prod_unfold)
  then show ?case
    by (simp add: Cons.IH uuid_v4_def modelOf_def)
qed

lemma Map_new_lookup: "map_of (Map_new es m) = map_of m ++ map_of (rev es)"
  by (induction es arbitrary: m) (auto simp: update_conv' map_add_def fun_eq_iff split: option.splits)

lemma Map_new_distinct: "distinct (map_keys m) \<Longrightarrow> distinct (map_keys (Map_new es m))"
  by (induction es arbitrary: m) (auto simp: distinct_update)

lemma Map_new_keys: "fst ` set (Map_new es m) = fst ` set m \<union> fst ` set es"
proof (induction es arbitrary: m)
  case Nil
  then show ?case by simp
next
  case (Cons e es)
  obtain k v where e: "e = (k, v)" by (cases e)
  show ?case unfolding e by (simp add: Cons.IH dom_update Un_assoc)
qed

lemma delete_as_filter: "map_delete k al = filter (\<lambda>e. fst e \<noteq> k) al"
  by (induction al) (auto simp: AList.delete_eq)

lemma diffEntry_step:
  "diffEntry filePath e (source, models, w) =
     (if map_get models (fst e) = None then map_delete (fst e) source else source,
      if map_get models (fst e) = None then models else map_delete (fst e) models,
      w\<lparr>trace := trace w @ diffEvents filePath models e\<rparr>)"
  by (cases e) (auto simp: diffEvents_def emit_def)

lemma trace_twice:
  "(w\<lparr>trace := trace w @ a\<rparr>)\<lparr>trace := trace (w\<lparr>trace := trace w @ a\<rparr>) @ b\<rparr> = w\<lparr>trace := trace w @ a @ b\<rparr>"
  by simp

lemma fold_diffEntry:
  "distinct (map fst es) \<Longrightarrow>
   fold (diffEntry filePath) es (source, models, w) =
     (filter (\<lambda>x. \<not> (fst x \<in> fst ` set es \<and> map_get models (fst x) = None)) source,
      filter (\<lambda>x. fst x \<notin> fst ` set es) models,
      w\<lparr>trace := trace w @ concat (map (diffEvents filePath models) es)\<rparr>)"
proof (induction es arbitrary: source models w)
  case Nil
  then show ?case by simp
next
  case (Cons e es)
  from Cons.prems have d: "distinct (map fst es)" and fresh: "fst e \<notin> fst ` set es"
    by auto
  let ?w1 = "w\<lparr>trace := trace w @ diffEvents filePath models e\<rparr>"
  show ?case
  proof (cases "map_get models (fst e)")
    case None
    have s: "filter (\<lambda>x. \<not> (fst x \<in> fst ` set es \<and> map_get models (fst x) = None))
               (map_delete (fst e) source)
           = filter (\<lambda>x. \<not> (fst x \<in> fst ` set (e # es) \<and> map_get models (fst x) = None)) source"
      unfolding delete_as_filter filter_filter by (rule filter_cong) (auto simp: None)
    have m: "filter (\<lambda>x. fst x \<notin> fst ` set es) models
           = filter (\<lambda>x. fst x \<notin> fst ` set (e # es)) models"
    proof (rule filter_cong)
      fix x assume "x \<in> set models"
      moreover have "fst e \<notin> fst ` set models"
        using None by (simp add: map_of_eq_None_iff)
      ultimately have "fst x \<noteq> fst e"
        by (metis imageI)
      then show "(fst x \<notin> fst ` set es) = (fst x \<notin> fst ` set (e # es))"
        by auto
    qed simp
    have "fold (diffEntry filePath) (e # es) (source, models, w)
        = fold (diffEntry filePath) es (map_delete (fst e) source, models, ?w1)"
      by (simp add: diffEntry_step None)
    also have "\<dots> = (filter (\<lambda>x. \<not> (fst x \<in> fst ` set es \<and> map_get models (fst x) = None))
                        (map_delete (fst e) source),
                     filter (\<lambda>x. fst x \<notin> fst ` set es) models,
                     ?w1\<lparr>trace := trace ?w1 @ concat (map (diffEvents filePath models) es)\<rparr>)"
      by (rule Cons.IH [OF d])
    finally show ?thesis
      by (simp only: s m trace_twice list.map concat.simps)
  next
    case (Some model)
    have l: "map_get (map_delete (fst e) models) k = map_get models k" if "k \<in> fst ` set es" for k
    proof -
      from that fresh have "k \<noteq> fst e" by blast
      then show ?thesis by (simp add: delete_conv')
    qed
    have s: "filter (\<lambda>x. \<not> (fst x \<in> fst ` set es \<and> map_get (map_delete (fst e) models) (fst x) = None)) source
           = filter (\<lambda>x. \<not> (fst x \<in> fst ` set (e # es) \<and> map_get models (fst x) = None)) source"
      by (rule filter_cong) (auto simp: Some l)
    have m: "filter (\<lambda>x. fst x \<notin> fst ` set es) (map_delete (fst e) models)
           = filter (\<lambda>x. fst x \<notin> fst ` set (e # es)) models"
      unfolding delete_as_filter filter_filter by (rule filter_cong) auto
    have t: "map (diffEvents filePath (map_delete (fst e) models)) es = map (diffEvents filePath models) es"
      by (rule map_cong) (auto simp: diffEvents_def l)
    have "fold (diffEntry filePath) (e # es) (source, models, w)
        = fold (diffEntry filePath) es (source, map_delete (fst e) models, ?w1)"
      by (simp add: diffEntry_step Some)
    also have "\<dots> = (filter (\<lambda>x. \<not> (fst x \<in> fst ` set es \<and> map_get (map_delete (fst e) models) (fst x) = None))
                        source,
                     filter (\<lambda>x. fst x \<notin> fst ` set es) (map_delete (fst e) models),
                     ?w1\<lparr>trace := trace ?w1 @ concat (map (diffEvents filePath (map_delete (fst e) models)) es)\<rparr>)"
      by (rule Cons.IH [OF d])
    finally show ?thesis
      by (simp only: s m t trace_twice list.map concat.simps)
  qed
qed

lemma diffExisting_eq:
  "distinct (map_keys source) \<Longrightarrow>
   diffExisting filePath source models w =
     (filter (\<lambda>x. map_get models (fst x) \<noteq> None) source,
      filter (\<lambda>x. fst x \<notin> fst ` set source) models,
      w\<lparr>trace := trace w @ concat (map (diffEvents filePath models) source)\<rparr>)"
proof -
  assume d: "distinct (map_keys source)"
  have "filter (\<lambda>x. \<not> (fst x \<in> fst ` set source \<and> map_get models (fst x) = None)) source
      = filter (\<lambda>x. map_get models (fst x) \<noteq> None) source"
    by (rule filter_cong) auto
  then show ?thesis
    unfolding diffExisting_def fold_diffEntry [OF d] by simp
qed


lemma addCluster_step:
  "addCluster deps filePath e (source, w) =
     (if constructs deps (snd e)
      then map_set (fst e) (next_cluster w, entityFor deps filePath (next_cluster w) (snd e)) source
      else source,
      w\<lparr>next_cluster := next_cluster w + allocs deps (snd e),
        trace := trace w @ addEvents deps filePath (next_cluster w) e\<rparr>)"
  by (cases e; cases "newCluster deps (snd e)")
     (auto simp: constructs_def allocs_def entityFor_def addEvents_def emit_def alloc_cluster_def Let_def)

lemma fold_addCluster_world:
  "snd (fold (addCluster deps filePath) ms (source, w)) =
     w\<lparr>next_cluster := next_cluster w + sum_list (map (\<lambda>e. allocs deps (snd e)) ms),
       trace := trace w @ addNewEvents deps filePath (next_cluster w) ms\<rparr>"
proof (induction ms arbitrary: source w)
  case Nil
  then show ?case by simp
next
  case (Cons e ms)
  show ?case
    by (simp add: addCluster_step Cons.IH add.assoc)
qed

lemma fold_addCluster_keys:
  "fst ` set (fst (fold (addCluster deps filePath) ms (source, w))) =
     fst ` set source \<union> fst ` {e \<in> set ms. constructs deps (snd e)}"
proof (induction ms arbitrary: source w)
  case Nil
  then show ?case by simp
next
  case (Cons e ms)
  show ?case
    by (auto simp add: addCluster_step Cons.IH dom_update)
qed

lemma fold_addCluster_other:
  "k \<notin> fst ` set ms \<Longrightarrow>
   map_get (fst (fold (addCluster deps filePath) ms (source, w))) k = map_get source k"
proof (induction ms arbitrary: source w)
  case Nil
  then show ?case by simp
next
  case (Cons e ms)
  then show ?case
    by (auto simp add: addCluster_step update_conv')
qed

lemma fold_addCluster_distinct:
  "distinct (map_keys source) \<Longrightarrow> distinct (map_keys (fst (fold (addCluster deps filePath) ms (source, w))))"
proof (induction ms arbitrary: source w)
  case Nil
  then show ?case by simp
next
  case (Cons e ms)
  then show ?case
    by (simp add: addCluster_step distinct_update)
qed

lemma update_append_fresh:
  "k \<notin> fst ` set base \<Longrightarrow> map_set k v (base @ ys) = base @ map_set k v ys"
  by (induction base) auto

lemma fold_addCluster_prefix:
  "fst ` set ms \<inter> fst ` set base = {} \<Longrightarrow>
   \<exists>ys'. fst (fold (addCluster deps filePath) ms (base @ ys, w)) = base @ ys'"
proof (induction ms arbitrary: ys w)
  case Nil
  then show ?case by simp
next
  case (Cons e ms)
  from Cons.prems have f: "fst e \<notin> fst ` set base" and r: "fst ` set ms \<inter> fst ` set base = {}"
    by auto
  show ?case
    using Cons.IH [OF r] by (simp add: addCluster_step update_append_fresh [OF f])
qed

lemma fold_addCluster_new:
  "distinct (map fst ms) \<Longrightarrow> (n, m) \<in> set ms \<Longrightarrow> constructs deps m \<Longrightarrow>
   \<exists>c. next_cluster w \<le> c \<and>
       map_get (fst (fold (addCluster deps filePath) ms (source, w))) n = Some (c, entityFor deps filePath c m) \<and>
       SourceSet n c \<in> set (addNewEvents deps filePath (next_cluster w) ms)"
proof (induction ms arbitrary: source w)
  case Nil
  then show ?case by simp
next
  case (Cons e ms)
  let ?w1 = "w\<lparr>next_cluster := next_cluster w + allocs deps (snd e),
        trace := trace w @ addEvents deps filePath (next_cluster w) e\<rparr>"
  show ?case
  proof (cases "e = (n, m)")
    case True
    with Cons.prems have "n \<notin> fst ` set ms" by auto
    then show ?thesis
      using Cons.prems(3) True
      by (intro exI [of _ "next_cluster w"])
         (simp add: addCluster_step fold_addCluster_other update_conv' addEvents_def)
  next
    case False
    with Cons.prems have d: "distinct (map fst ms)" and i: "(n, m) \<in> set ms" by auto
    from Cons.IH [OF d i Cons.prems(3), of ?w1 "fst (addCluster deps filePath e (source, w))"]
    obtain c where "next_cluster ?w1 \<le> c"
      "map_get (fst (fold (addCluster deps filePath) ms (fst (addCluster deps filePath e (source, w)), ?w1))) n
         = Some (c, entityFor deps filePath c m)"
      "SourceSet n c \<in> set (addNewEvents deps filePath (next_cluster ?w1) ms)"
      by blast
    then show ?thesis
      by (intro exI [of _ c]) (simp add: addCluster_step)
  qed
qed


subsection \<open>The pass as a whole\<close>

lemma configsToModels_eq:
  "configsToModels deps configs filePath w =
     (map (\<lambda>(i, c). modelOf deps filePath (next_uuid w + i) c) (enumerate 0 (filter (passes deps) configs)),
      w\<lparr>next_uuid := next_uuid w + length (filter (passes deps) configs),
        trace := trace w @ map (validationLog deps filePath) (filter (\<lambda>c. \<not> passes deps c) configs)\<rparr>)"
  by (simp add: configsToModels_def validConfigs_eq toModels_eq)

lemma configsToModels_names:
  "map contextName (fst (configsToModels deps configs filePath w)) =
     map (currentContext deps) (filter (passes deps) configs)"
proof -
  have e: "map (\<lambda>x. currentContext deps (snd x)) (enumerate 0 cs) = map (currentContext deps) cs" for cs
  proof -
    have "map (\<lambda>x. currentContext deps (snd x)) (enumerate 0 cs)
        = map (currentContext deps) (map snd (enumerate 0 cs))"
      unfolding map_map comp_def ..
    then show ?thesis by simp
  qed
  show ?thesis
    by (simp add: configsToModels_eq modelOf_def case_prod_unfold comp_def e)
qed

lemma passModels_distinct: "distinct (map_keys (passModels deps buf filePath w))"
  by (simp add: passModels_def Map_new_distinct split: sum.splits)

lemma passModels_keys:
  "parseConfigs deps buf = Inr configs \<Longrightarrow>
   fst ` set (passModels deps buf filePath w) = currentContext deps ` {c \<in> set configs. passes deps c}"
proof -
  assume p: "parseConfigs deps buf = Inr configs"
  have "fst ` set (map (\<lambda>m. (contextName m, m)) ms) = set (map contextName ms)" for ms :: "ClusterModel list"
    by (simp add: image_image)
  then show ?thesis
    by (simp add: passModels_def p Map_new_keys configsToModels_names del: set_map) simp
qed

lemma computeDiff_parsed:
  assumes "parseConfigs deps buf = Inr configs" and "distinct (map_keys source)"
  shows "computeDiff deps buf source port filePath w =
     addNew deps filePath
       (filter (\<lambda>x. fst x \<notin> fst ` set source) (passModels deps buf filePath w))
       (filter (\<lambda>x. map_get (passModels deps buf filePath w) (fst x) \<noteq> None) source)
       ((snd (configsToModels deps configs filePath w))
          \<lparr>trace := trace (snd (configsToModels deps configs filePath w)) @
             concat (map (diffEvents filePath (passModels deps buf filePath w)) source)\<rparr>)"
  using assms
  by (simp add: computeDiff_def passModels_def diffExisting_eq split: prod.splits)

lemma computeDiff_failed:
  "parseConfigs deps buf = Inl error \<Longrightarrow>
   computeDiff deps buf source port filePath w =
     ([], w\<lparr>trace := trace w @
              [Log Warn (''[KUBECONFIG-SYNC]: Failed to compute diff: '' @ error) [(''filePath'', filePath)],
               SourceClear]\<rparr>)"
  by (simp add: computeDiff_def emit_def)

lemma passEvents_failed:
  "parseConfigs deps buf = Inl error \<Longrightarrow>
   passEvents deps buf source port filePath w =
     [Log Warn (''[KUBECONFIG-SYNC]: Failed to compute diff: '' @ error) [(''filePath'', filePath)],
      SourceClear]"
  by (simp add: passEvents_def computeDiff_failed)

lemmas example_simps =
  example_def world0_def computeDiff_def parseConfigs_def configsToModels_def uuid_v4_def
  alloc_cluster_def emit_def addNew_def diffExisting_def passEvents_def passes_def

lemma passEvents_parsed:
  assumes "parseConfigs deps buf = Inr configs" and "distinct (map_keys source)"
  shows "passEvents deps buf source port filePath w =
     map (validationLog deps filePath) (filter (\<lambda>c. \<not> passes deps c) configs) @
     concat (map (diffEvents filePath (passModels deps buf filePath w)) source) @
     addNewEvents deps filePath (next_cluster w)
       (filter (\<lambda>x. fst x \<notin> fst ` set source) (passModels deps buf filePath w))"
  by (simp add: passEvents_def computeDiff_parsed [OF assms] addNew_def fold_addCluster_world
      configsToModels_eq)

lemma computeDiff_keys:
  assumes "parseConfigs deps buf = Inr configs" and "distinct (map_keys source)"
  shows "fst ` set (fst (computeDiff deps buf source port filePath w)) =
     {n. \<exists>m. map_get (passModels deps buf filePath w) n = Some m \<and> (map_has n source \<or> constructs deps m)}"
proof -
  let ?models = "passModels deps buf filePath w"
  have d: "distinct (map_keys ?models)" by (rule passModels_distinct)
  have a: "fst ` set (filter (\<lambda>x. map_get ?models (fst x) \<noteq> None) source)
         = {n. map_has n source \<and> (\<exists>m. map_get ?models n = Some m)}"
    by force
  have b: "fst ` {e \<in> set (filter (\<lambda>x. fst x \<notin> fst ` set source) ?models). constructs deps (snd e)}
         = {n. \<not> map_has n source \<and> (\<exists>m. map_get ?models n = Some m \<and> constructs deps m)}"
    using d by force
  show ?thesis
    unfolding computeDiff_parsed [OF assms] addNew_def fold_addCluster_keys a b by blast
qed

lemma computeDiff_distinct:
  assumes "distinct (map_keys source)"
  shows "distinct (map_keys (fst (computeDiff deps buf source port filePath w)))"
proof (cases "parseConfigs deps buf")
  case (Inl error)
  then show ?thesis by (simp add: computeDiff_failed)
next
  case (Inr configs)
  have "distinct (map_keys (filter (\<lambda>x. map_get (passModels deps buf filePath w) (fst x) \<noteq> None) source))"
    using assms by (simp add: distinct_map_filter)
  then show ?thesis
    unfolding computeDiff_parsed [OF Inr assms] addNew_def by (rule fold_addCluster_distinct)
qed


subsection \<open>The key set after a pass\<close>

text \<open>
  \<^bold>\<open>C4.\<close> When the buffer parses and the unit's map is a map (its keys are distinct),
  the keys of the map after the pass are exactly the context names that passed validation
  and have a constructed connection: a name that was in the map keeps its record (its
  connection was constructed when the name first appeared, and the pass does not construct
  it again), and a new name gets a record exactly when the construction of its model
  succeeds; a name skipped on construction failure is absent.  The names with a model are
  the names of the configs that passed validation.
\<close>

theorem computeDiff_key_set:
  assumes "parseConfigs deps buf = Inr configs" and "distinct (map_keys source)"
  shows "set (map_keys (fst (computeDiff deps buf source port filePath w))) =
           {n. \<exists>m. map_get (passModels deps buf filePath w) n = Some m \<and>
                    (map_has n source \<or> constructs deps m)} \<and>
         set (map_keys (passModels deps buf filePath w)) =
           currentContext deps ` {c \<in> set configs. passes deps c} \<and>
         distinct (map_keys (fst (computeDiff deps buf source port filePath w)))"
proof -
  have a: "set (map_keys (fst (computeDiff deps buf source port filePath w))) =
           {n. \<exists>m. map_get (passModels deps buf filePath w) n = Some m \<and>
                    (map_has n source \<or> constructs deps m)}"
    unfolding set_map by (rule computeDiff_keys [OF assms])
  have b: "set (map_keys (passModels deps buf filePath w)) =
           currentContext deps ` {c \<in> set configs. passes deps c}"
    unfolding set_map by (rule passModels_keys [OF assms(1)])
  from a b computeDiff_distinct [OF assms(2)] show ?thesis by (intro conjI)
qed


theorem computeDiff_key_set_witness:
  "parseConfigs example ''axbn'' = Inr [''a'', ''x'', ''b'', ''n''] \<and>
   distinct (map_keys ([] :: RootSource)) \<and>
   set (map_keys (fst (computeDiff example ''axbn'' [] 0 ''c.yaml'' world0))) = {''a'', ''b''} \<and>
   {n. \<exists>m. map_get (passModels example ''axbn'' ''c.yaml'' world0) n = Some m \<and>
            (map_has n ([] :: RootSource) \<or> constructs example m)} = {''a'', ''b''}"
proof -
  have p: "parseConfigs example ''axbn'' = Inr [''a'', ''x'', ''b'', ''n'']"
    by (simp add: example_simps)
  have d: "distinct (map_keys ([] :: RootSource))" by simp
  have k: "set (map_keys (fst (computeDiff example ''axbn'' [] 0 ''c.yaml'' world0))) = {''a'', ''b''}"
    by (simp add: example_simps)
  note t = computeDiff_key_set [OF p d, of 0 "''c.yaml''" world0, THEN conjunct1]
  have "{n. \<exists>m. map_get (passModels example ''axbn'' ''c.yaml'' world0) n = Some m \<and>
            (map_has n ([] :: RootSource) \<or> constructs example m)} = {''a'', ''b''}"
    by (rule trans [OF t [symmetric] k])
  with p d k show ?thesis by (intro conjI)
qed


subsection \<open>Invalid contexts\<close>

lemma set_update_subset: "set (map_set k v al) \<subseteq> insert (k, v) (set al)"
  by (induction al) auto

lemma Map_new_entries: "set (Map_new es m) \<subseteq> set es \<union> set m"
proof (induction es arbitrary: m)
  case Nil
  then show ?case by simp
next
  case (Cons e es)
  obtain k v where e: "e = (k, v)" by (cases e)
  have "set (Map_new es (map_set k v m)) \<subseteq> set es \<union> set (map_set k v m)"
    by (rule Cons.IH)
  also have "\<dots> \<subseteq> set es \<union> insert (k, v) (set m)"
    using set_update_subset [of k v m] by blast
  finally show ?case by (auto simp: e)
qed

lemma passModels_entries:
  "(k, m) \<in> set (passModels deps buf filePath w) \<Longrightarrow> k = contextName m"
proof (cases "parseConfigs deps buf")
  case (Inl error)
  assume "(k, m) \<in> set (passModels deps buf filePath w)"
  then show ?thesis by (simp add: passModels_def Inl)
next
  case (Inr configs)
  assume "(k, m) \<in> set (passModels deps buf filePath w)"
  then have "(k, m) \<in> set (map (\<lambda>m. (contextName m, m)) (fst (configsToModels deps configs filePath w)))"
    using Map_new_entries [of "map (\<lambda>m. (contextName m, m)) (fst (configsToModels deps configs filePath w))" "[]"]
    by (auto simp: passModels_def Inr)
  then show ?thesis by auto
qed

lemma addNewEvents_NewCluster:
  "e \<in> set ms \<Longrightarrow> NewCluster (snd e) \<in> set (addNewEvents deps filePath c ms)"
  by (induction ms arbitrary: c) (auto simp: addEvents_def)

lemma passEvents_processes_valid:
  assumes p: "parseConfigs deps buf = Inr configs" and d: "distinct (map_keys source)"
    and c: "c \<in> set configs" "passes deps c"
  shows "\<exists>m. contextName m = currentContext deps c \<and>
             (NewCluster m \<in> set (passEvents deps buf source port filePath w) \<or>
              (\<exists>r. UpdateModel r m \<in> set (passEvents deps buf source port filePath w)))"
proof -
  let ?models = "passModels deps buf filePath w"
  let ?n = "currentContext deps c"
  from c have "?n \<in> fst ` set ?models"
    unfolding passModels_keys [OF p] by blast
  then obtain m where m: "(?n, m) \<in> set ?models" by auto
  then have l: "map_get ?models ?n = Some m"
    using passModels_distinct [of deps buf filePath w] by simp
  from m have n: "contextName m = ?n" by (simp add: passModels_entries [OF m])
  show ?thesis
  proof (cases "map_has ?n source")
    case True
    then obtain v where v: "(?n, v) \<in> set source" by auto
    have "UpdateModel (fst v) m \<in> set (diffEvents filePath ?models (?n, v))"
      by (simp add: diffEvents_def l)
    with v have "UpdateModel (fst v) m \<in> set (passEvents deps buf source port filePath w)"
      unfolding passEvents_parsed [OF p d] by fastforce
    with n show ?thesis by blast
  next
    case False
    with m have "(?n, m) \<in> set (filter (\<lambda>x. fst x \<notin> fst ` set source) ?models)" by simp
    from addNewEvents_NewCluster [OF this, of deps filePath "next_cluster w"]
    have "NewCluster m \<in> set (passEvents deps buf source port filePath w)"
      unfolding passEvents_parsed [OF p d] by simp
    with n show ?thesis by blast
  qed
qed

text \<open>
  \<^bold>\<open>C8.\<close> \<^verbatim>\<open>configsToModels\<close> drops exactly the configs that fail validation, one
  debug line (with the context name and the file path) for each, and returns a model for
  every config that passes, in the order of the buffer.  In a pass over a buffer that
  parses, every config that passes validation is processed, whatever its siblings did:
  the record of its name is updated with a model of that name, or a cluster is constructed
  from one.
\<close>

theorem invalid_contexts_dropped_individually:
  "map contextName (fst (configsToModels deps configs filePath w)) =
     map (currentContext deps) (filter (passes deps) configs) \<and>
   trace (snd (configsToModels deps configs filePath w)) =
     trace w @ map (validationLog deps filePath) (filter (\<lambda>c. \<not> passes deps c) configs) \<and>
   (parseConfigs deps buf = Inr configs \<longrightarrow> distinct (map_keys source) \<longrightarrow>
      (\<forall>c \<in> set configs. passes deps c \<longrightarrow>
         (\<exists>m. contextName m = currentContext deps c \<and>
              (NewCluster m \<in> set (passEvents deps buf source port filePath w) \<or>
               (\<exists>r. UpdateModel r m \<in> set (passEvents deps buf source port filePath w))))))"
proof (intro conjI impI ballI)
  show "map contextName (fst (configsToModels deps configs filePath w)) =
     map (currentContext deps) (filter (passes deps) configs)"
    by (rule configsToModels_names)
  show "trace (snd (configsToModels deps configs filePath w)) =
     trace w @ map (validationLog deps filePath) (filter (\<lambda>c. \<not> passes deps c) configs)"
    by (simp add: configsToModels_eq)
next
  fix c
  assume "parseConfigs deps buf = Inr configs" "distinct (map_keys source)" "c \<in> set configs"
    "passes deps c"
  then show "\<exists>m. contextName m = currentContext deps c \<and>
              (NewCluster m \<in> set (passEvents deps buf source port filePath w) \<or>
               (\<exists>r. UpdateModel r m \<in> set (passEvents deps buf source port filePath w)))"
    by (rule passEvents_processes_valid)
qed

theorem invalid_contexts_dropped_individually_witness:
  "parseConfigs example ''axb'' = Inr [''a'', ''x'', ''b''] \<and>
   \<not> passes example ''x'' \<and> passes example ''a'' \<and> passes example ''b'' \<and>
   map contextName (fst (configsToModels example [''a'', ''x'', ''b''] ''c.yaml'' world0)) = [''a'', ''b''] \<and>
   trace (snd (configsToModels example [''a'', ''x'', ''b''] ''c.yaml'' world0)) =
     [Log Debug ''[KUBECONFIG-SYNC]: context failed validation: Error: No valid cluster object provided in kubeconfig''
        [(''context'', ''x''), (''filePath'', ''c.yaml'')]] \<and>
   (\<exists>m. contextName m = ''b'' \<and>
        (NewCluster m \<in> set (passEvents example ''axb'' [] 0 ''c.yaml'' world0) \<or>
         (\<exists>r. UpdateModel r m \<in> set (passEvents example ''axb'' [] 0 ''c.yaml'' world0))))"
proof -
  have p: "parseConfigs example ''axb'' = Inr [''a'', ''x'', ''b'']"
    by (simp add: example_simps)
  have v: "\<not> passes example ''x''" "passes example ''a''" "passes example ''b''"
    by (simp_all add: example_simps)
  note t = invalid_contexts_dropped_individually
    [of example "[''a'', ''x'', ''b'']" "''c.yaml''" world0 "''axb''" "[]" 0]
  have a: "map contextName (fst (configsToModels example [''a'', ''x'', ''b''] ''c.yaml'' world0)) = [''a'', ''b'']"
    using t [THEN conjunct1] by (simp add: example_simps)
  have b: "trace (snd (configsToModels example [''a'', ''x'', ''b''] ''c.yaml'' world0)) =
     [Log Debug ''[KUBECONFIG-SYNC]: context failed validation: Error: No valid cluster object provided in kubeconfig''
        [(''context'', ''x''), (''filePath'', ''c.yaml'')]]"
    by (simp add: example_simps)
  have "\<forall>c \<in> set [''a'', ''x'', ''b'']. passes example c \<longrightarrow>
         (\<exists>m. contextName m = currentContext example c \<and>
              (NewCluster m \<in> set (passEvents example ''axb'' [] 0 ''c.yaml'' world0) \<or>
               (\<exists>r. UpdateModel r m \<in> set (passEvents example ''axb'' [] 0 ''c.yaml'' world0))))"
    using t [THEN conjunct2, THEN conjunct2] p by simp
  then have c: "\<exists>m. contextName m = ''b'' \<and>
        (NewCluster m \<in> set (passEvents example ''axb'' [] 0 ''c.yaml'' world0) \<or>
         (\<exists>r. UpdateModel r m \<in> set (passEvents example ''axb'' [] 0 ''c.yaml'' world0)))"
    using v(3) by (simp add: example_def)
  from p v a b c show ?thesis by (intro conjI)
qed


subsection \<open>A buffer that does not parse\<close>

text \<open>
  \<^bold>\<open>C1.\<close> What the pass does when the parse of the buffer throws: the map becomes empty,
  and the effects of the pass are the warning and \<^verbatim>\<open>source.clear()\<close> alone.  No record
  of the map is disconnected, whatever the map held: the claim's \<^verbatim>\<open>disconnect()\<close> on
  every record is not there, while the loop that removes single records (lines 124 to
  126) disconnects before it deletes.
\<close>

theorem parse_failure_clears_without_disconnect:
  "parseConfigs deps buf = Inl error \<Longrightarrow>
   fst (computeDiff deps buf source port filePath w) = [] \<and>
   passEvents deps buf source port filePath w =
     [Log Warn (''[KUBECONFIG-SYNC]: Failed to compute diff: '' @ error) [(''filePath'', filePath)],
      SourceClear] \<and>
   Disconnect cluster \<notin> set (passEvents deps buf source port filePath w)"
  by (simp add: computeDiff_failed passEvents_failed)

theorem parse_failure_clears_without_disconnect_witness:
  "parseConfigs example ''!'' = Inl ''YAMLException: bad indentation'' \<and>
   fst (computeDiff example ''!''
          [(''a'', 0, entityFor example ''c.yaml'' 0 \<lparr>model_id = 0, kubeConfigPath = ''c.yaml'', contextName = ''a''\<rparr>)]
          0 ''c.yaml'' world0) = [] \<and>
   Disconnect 0 \<notin> set (passEvents example ''!''
          [(''a'', 0, entityFor example ''c.yaml'' 0 \<lparr>model_id = 0, kubeConfigPath = ''c.yaml'', contextName = ''a''\<rparr>)]
          0 ''c.yaml'' world0)"
proof -
  have p: "parseConfigs example ''!'' = Inl ''YAMLException: bad indentation''"
    by (simp add: example_simps)
  from parse_failure_clears_without_disconnect [OF p] p show ?thesis by blast
qed

text \<open>
  \<^bold>\<open>C3.\<close> The invariant fails on \<^verbatim>\<open>source.clear()\<close>.  A first pass over a buffer with
  the context \<open>a\<close> constructs cluster 0 and puts its record into the map; a second pass
  over a buffer that does not parse removes the record, and the whole trace of the two
  passes holds no \<^verbatim>\<open>disconnect()\<close> of cluster 0.
\<close>

theorem record_cleared_never_disconnected:
  "fst (computeDiff example ''a'' [] 0 ''c.yaml'' world0) =
     [(''a'', 0, entityFor example ''c.yaml'' 0
                   \<lparr>model_id = 0, kubeConfigPath = ''c.yaml'', contextName = ''a''\<rparr>)] \<and>
   computeDiff example ''!'' (fst (computeDiff example ''a'' [] 0 ''c.yaml'' world0)) 0 ''c.yaml''
       (snd (computeDiff example ''a'' [] 0 ''c.yaml'' world0)) =
     ([], \<lparr>next_uuid = 1, next_cluster = 1,
           trace =
             [NewCluster \<lparr>model_id = 0, kubeConfigPath = ''c.yaml'', contextName = ''a''\<rparr>,
              SourceSet ''a'' 0,
              Log Debug ''[KUBECONFIG-SYNC]: Added new cluster from sync''
                [(''filePath'', ''c.yaml''), (''contextName'', ''a'')],
              Log Warn ''[KUBECONFIG-SYNC]: Failed to compute diff: YAMLException: bad indentation''
                [(''filePath'', ''c.yaml'')],
              SourceClear]\<rparr>) \<and>
   count_list (trace (snd (computeDiff example ''!''
       (fst (computeDiff example ''a'' [] 0 ''c.yaml'' world0)) 0 ''c.yaml''
       (snd (computeDiff example ''a'' [] 0 ''c.yaml'' world0))))) (Disconnect 0) = 0"
  by (simp add: example_simps entityFor_def)


subsection \<open>Records the diff loop removes\<close>

lemma lifecycle_addNewEvents: "filter lifecycle (addNewEvents deps filePath k ms) = []"
  by (induction ms arbitrary: k) (simp_all add: addEvents_def)

lemma lifecycle_diffEvents:
  "filter lifecycle (diffEvents filePath models x) =
     (if map_get models (fst x) = None then [Disconnect (fst (snd x)), SourceDelete (fst x)] else [])"
  by (simp add: diffEvents_def split: option.splits)

lemma concat_map_if:
  "concat (map (\<lambda>x. if Q x then f x else []) xs) = concat (map f (filter Q xs))"
  by (induction xs) simp_all

text \<open>
  In a pass over a buffer that parses, the disconnects and removals are exactly these: for
  each record whose name has no model, in the order of the map, \<^verbatim>\<open>disconnect()\<close> on its
  cluster and then the deletion of its name.  The names of a map are distinct, so a record
  the loop removes is disconnected once, immediately before it is removed.
\<close>

theorem diff_loop_disconnects_before_delete:
  assumes "parseConfigs deps buf = Inr configs" and "distinct (map_keys source)"
  shows "filter lifecycle (passEvents deps buf source port filePath w) =
           concat (map (\<lambda>x. [Disconnect (fst (snd x)), SourceDelete (fst x)])
             (filter (\<lambda>x. map_get (passModels deps buf filePath w) (fst x) = None) source))"
proof -
  have l: "filter lifecycle (map (validationLog deps filePath) cs) = []" for cs
    by (induction cs) (simp_all add: validationLog_def)
  show ?thesis
    unfolding passEvents_parsed [OF assms]
    by (simp add: l lifecycle_addNewEvents filter_concat comp_def lifecycle_diffEvents concat_map_if)
qed

theorem diff_loop_disconnects_before_delete_witness:
  "parseConfigs example ''b'' = Inr [''b''] \<and>
   distinct (map_keys (fst (computeDiff example ''ab'' [] 0 ''c.yaml'' world0))) \<and>
   filter lifecycle (passEvents example ''b'' (fst (computeDiff example ''ab'' [] 0 ''c.yaml'' world0)) 0 ''c.yaml''
       (snd (computeDiff example ''ab'' [] 0 ''c.yaml'' world0))) =
     [Disconnect 0, SourceDelete ''a'']"
proof -
  have p: "parseConfigs example ''b'' = Inr [''b'']"
    by (simp add: example_simps)
  have d: "distinct (map_keys (fst (computeDiff example ''ab'' [] 0 ''c.yaml'' world0)))"
    by (rule computeDiff_distinct) simp
  have "filter lifecycle (passEvents example ''b'' (fst (computeDiff example ''ab'' [] 0 ''c.yaml'' world0)) 0 ''c.yaml''
       (snd (computeDiff example ''ab'' [] 0 ''c.yaml'' world0))) =
     [Disconnect 0, SourceDelete ''a'']"
    unfolding diff_loop_disconnects_before_delete [OF p d]
    by (simp add: passModels_def example_simps)
  with p d show ?thesis by (intro conjI)
qed


subsection \<open>Reconciling the same buffer twice\<close>

lemma addNewEvents_no_Disconnect: "Disconnect c \<notin> set (addNewEvents deps filePath k ms)"
  by (induction ms arbitrary: k) (auto simp: addEvents_def)

lemma addNewEvents_NewCluster_only:
  "NewCluster m \<in> set (addNewEvents deps filePath k ms) \<Longrightarrow> m \<in> snd ` set ms"
  by (induction ms arbitrary: k) (auto simp: addEvents_def split: if_splits)

lemma diffEvents_present:
  "map_get models (fst x) = Some m \<Longrightarrow>
   diffEvents filePath models x =
     [UpdateModel (fst (snd x)) m,
      Log Debug ''[KUBECONFIG-SYNC]: Updated old cluster from sync''
        [(''filePath'', filePath), (''contextName'', fst x)]]"
  by (simp add: diffEvents_def)

lemma diffEvents_absent:
  "map_get models (fst x) = None \<Longrightarrow>
   diffEvents filePath models x =
     [Disconnect (fst (snd x)), SourceDelete (fst x),
      Log Debug ''[KUBECONFIG-SYNC]: Removed old cluster from sync''
        [(''filePath'', filePath), (''contextName'', fst x)]]"
  by (simp add: diffEvents_def)

lemma passModels_keys_same:
  "fst ` set (passModels deps buf filePath w) = fst ` set (passModels deps buf filePath' w')"
proof (cases "parseConfigs deps buf")
  case (Inl error)
  then show ?thesis by (simp add: passModels_def)
next
  case (Inr configs)
  show ?thesis
    unfolding passModels_keys [OF Inr] ..
qed

lemma second_pass:
  assumes d: "distinct (map_keys source)"
    and first: "computeDiff deps buf source port filePath w = (s1, w1)"
  shows "(\<exists>added. fst (computeDiff deps buf s1 port filePath w1) = s1 @ added)" (is ?A)
    and "Disconnect c \<notin> set (passEvents deps buf s1 port filePath w1)" (is ?B)
    and "NewCluster m \<in> set (passEvents deps buf s1 port filePath w1) \<Longrightarrow>
           \<not> map_has (contextName m) s1 \<and>
           map_get (passModels deps buf filePath w1) (contextName m) = Some m" (is "?C1 \<Longrightarrow> ?C2")
    and "fst ` set (passModels deps buf filePath w) \<subseteq> fst ` set s1 \<Longrightarrow>
           fst (computeDiff deps buf s1 port filePath w1) = s1 \<and>
           NewCluster m \<notin> set (passEvents deps buf s1 port filePath w1)" (is "?D1 \<Longrightarrow> ?D2")
    and "x \<in> set s1 \<Longrightarrow> \<exists>m'. UpdateModel (fst (snd x)) m' \<in> set (passEvents deps buf s1 port filePath w1)"
      (is "?E1 \<Longrightarrow> ?E2")
proof -
  have "?A \<and> ?B \<and> (?C1 \<longrightarrow> ?C2) \<and> (?D1 \<longrightarrow> ?D2) \<and> (?E1 \<longrightarrow> ?E2)"
  proof (cases "parseConfigs deps buf")
    case (Inl error)
    from first have s1: "s1 = []" by (simp add: computeDiff_failed [OF Inl])
    show ?thesis
      by (simp add: s1 computeDiff_failed [OF Inl] passEvents_failed [OF Inl])
  next
    case (Inr configs)
    let ?models = "passModels deps buf filePath w"
    let ?models1 = "passModels deps buf filePath w1"
    let ?new = "filter (\<lambda>x. fst x \<notin> fst ` set s1) ?models1"
    from first have s1: "s1 = fst (computeDiff deps buf source port filePath w)" by simp
    have d1: "distinct (map_keys s1)"
      unfolding s1 by (rule computeDiff_distinct [OF d])
    have dm: "distinct (map_keys ?models1)" by (rule passModels_distinct)
    have "fst ` set s1 \<subseteq> fst ` set ?models"
      unfolding s1 computeDiff_keys [OF Inr d] by (force dest: map_of_SomeD)
    then have sub: "fst ` set s1 \<subseteq> fst ` set ?models1"
      using passModels_keys_same [of deps buf filePath w filePath w1] by simp
    have look: "\<exists>m'. map_get ?models1 (fst x) = Some m'" if "x \<in> set s1" for x
    proof -
      from that sub have "fst x \<in> fst ` set ?models1" by blast
      then show ?thesis by (auto simp: map_of_eq_Some_iff [OF dm])
    qed
    have keep: "filter (\<lambda>x. map_get ?models1 (fst x) \<noteq> None) s1 = s1"
      using look by (simp add: filter_id_conv)
    have second: "fst (computeDiff deps buf s1 port filePath w1)
        = fst (fold (addCluster deps filePath) ?new (s1, (snd (configsToModels deps configs filePath w1))
          \<lparr>trace := trace (snd (configsToModels deps configs filePath w1)) @
             concat (map (diffEvents filePath ?models1) s1)\<rparr>))"
      unfolding computeDiff_parsed [OF Inr d1] keep addNew_def ..
    have ev: "passEvents deps buf s1 port filePath w1 =
       map (validationLog deps filePath) (filter (\<lambda>c. \<not> passes deps c) configs) @
       concat (map (diffEvents filePath ?models1) s1) @
       addNewEvents deps filePath (next_cluster w1) ?new"
      by (rule passEvents_parsed [OF Inr d1])
    have disj: "fst ` set ?new \<inter> fst ` set s1 = {}" by auto
    have A: ?A
      unfolding second using fold_addCluster_prefix [OF disj, of deps filePath "[]"] by simp
    have B: ?B
    proof
      assume "Disconnect c \<in> set (passEvents deps buf s1 port filePath w1)"
      then consider "Disconnect c \<in> set (map (validationLog deps filePath) (filter (\<lambda>c. \<not> passes deps c) configs))"
        | x where "x \<in> set s1" "Disconnect c \<in> set (diffEvents filePath ?models1 x)"
        | "Disconnect c \<in> set (addNewEvents deps filePath (next_cluster w1) ?new)"
        unfolding ev by auto
      then show False
      proof cases
        case 1
        then show ?thesis by (auto simp: validationLog_def)
      next
        case 2
        from look [OF 2(1)] obtain m' where "map_get ?models1 (fst x) = Some m'" ..
        with 2(2) show ?thesis by (simp add: diffEvents_present)
      next
        case 3
        then show ?thesis by (simp add: addNewEvents_no_Disconnect)
      qed
    qed
    have newc: "m \<in> snd ` set ?new" if "NewCluster m \<in> set (passEvents deps buf s1 port filePath w1)"
    proof -
      from that consider "NewCluster m \<in> set (map (validationLog deps filePath) (filter (\<lambda>c. \<not> passes deps c) configs))"
        | x where "x \<in> set s1" "NewCluster m \<in> set (diffEvents filePath ?models1 x)"
        | "NewCluster m \<in> set (addNewEvents deps filePath (next_cluster w1) ?new)"
        unfolding ev by auto
      then show ?thesis
      proof cases
        case 1
        then show ?thesis by (auto simp: validationLog_def)
      next
        case 2
        from look [OF 2(1)] obtain m' where "map_get ?models1 (fst x) = Some m'" ..
        with 2(2) show ?thesis by (simp add: diffEvents_present)
      next
        case 3
        then show ?thesis by (rule addNewEvents_NewCluster_only)
      qed
    qed
    have C: "?C1 \<longrightarrow> ?C2"
    proof
      assume ?C1
      from newc [OF this] obtain k where k: "(k, m) \<in> set ?models1" "k \<notin> fst ` set s1"
        by auto
      from k(1) have "k = contextName m" by (rule passModels_entries)
      with k dm show ?C2 by simp
    qed
    have D: "?D1 \<longrightarrow> ?D2"
    proof
      assume ?D1
      then have "fst ` set ?models1 \<subseteq> fst ` set s1"
        using passModels_keys_same [of deps buf filePath w filePath w1] by simp
      then have e: "?new = []" by (auto simp: filter_empty_conv)
      have "fst (computeDiff deps buf s1 port filePath w1) = s1"
        unfolding second e by simp
      moreover have "NewCluster m \<notin> set (passEvents deps buf s1 port filePath w1)"
        using newc [of ] e by auto
      ultimately show ?D2 by simp
    qed
    have E: "?E1 \<longrightarrow> ?E2"
    proof
      assume x: ?E1
      from look [OF x] obtain m' where "map_get ?models1 (fst x) = Some m'" ..
      then have "UpdateModel (fst (snd x)) m' \<in> set (diffEvents filePath ?models1 x)"
        by (simp add: diffEvents_present)
      with x have "UpdateModel (fst (snd x)) m' \<in> set (passEvents deps buf s1 port filePath w1)"
        unfolding ev by auto
      then show ?E2 ..
    qed
    from A B C D E show ?thesis by (intro conjI)
  qed
  then show ?A ?B "?C1 \<Longrightarrow> ?C2" "?D1 \<Longrightarrow> ?D2" "?E1 \<Longrightarrow> ?E2" by blast+
qed


text \<open>
  \<^bold>\<open>C6\<close> fails as stated: the second pass constructs again.  The cluster of context \<open>n\<close>
  is constructed without an \<^verbatim>\<open>apiUrl\<close>, so the first pass over the buffer \<open>n\<close>
  leaves the map empty; the second pass over the same buffer finds the name absent and
  calls the constructor once more.
\<close>

theorem second_pass_constructs_again_counterexample:
  "fst (computeDiff example ''n'' [] 0 ''c.yaml'' world0) = [] \<and>
   passEvents example ''n'' (fst (computeDiff example ''n'' [] 0 ''c.yaml'' world0)) 0 ''c.yaml''
       (snd (computeDiff example ''n'' [] 0 ''c.yaml'' world0)) =
     [NewCluster \<lparr>model_id = 1, kubeConfigPath = ''c.yaml'', contextName = ''n''\<rparr>,
      Log Warn ''KUBECONFIG-SYNC]: Failed to create cluster from model: Error: Cluster constructor failed, see above error''
        [(''filePath'', ''c.yaml''), (''contextName'', ''n'')]]"
  by (simp add: example_simps)

text \<open>
  \<^bold>\<open>C6, amended.\<close> Let a pass over a buffer take a unit's map to \<open>s1\<close>.  A second pass
  over the same buffer keeps every record of \<open>s1\<close> in its place, the same cluster object
  and the same entity, and calls \<^verbatim>\<open>updateModel\<close> on it; it calls \<^verbatim>\<open>disconnect()\<close> on
  nothing; and it constructs a cluster only for a model whose name has no record in
  \<open>s1\<close>, that is, for a valid context whose construction failed in the first pass.  When
  every name with a model has a record after the first pass, the second pass constructs
  nothing and leaves the map as it is.
\<close>

theorem second_pass_keeps_records:
  assumes "distinct (map_keys source)"
    and "computeDiff deps buf source port filePath w = (s1, w1)"
  shows "(\<exists>added. fst (computeDiff deps buf s1 port filePath w1) = s1 @ added) \<and>
         (\<forall>x \<in> set s1. \<exists>m. UpdateModel (fst (snd x)) m \<in> set (passEvents deps buf s1 port filePath w1)) \<and>
         (\<forall>c. Disconnect c \<notin> set (passEvents deps buf s1 port filePath w1)) \<and>
         (\<forall>m. NewCluster m \<in> set (passEvents deps buf s1 port filePath w1) \<longrightarrow>
              \<not> map_has (contextName m) s1 \<and>
              map_get (passModels deps buf filePath w1) (contextName m) = Some m) \<and>
         (set (map_keys (passModels deps buf filePath w)) \<subseteq> set (map_keys s1) \<longrightarrow>
            fst (computeDiff deps buf s1 port filePath w1) = s1 \<and>
            (\<forall>m. NewCluster m \<notin> set (passEvents deps buf s1 port filePath w1)))"
proof (intro conjI allI ballI impI)
  show "\<exists>added. fst (computeDiff deps buf s1 port filePath w1) = s1 @ added"
    by (rule second_pass(1) [OF assms])
next
  fix x assume "x \<in> set s1"
  then show "\<exists>m. UpdateModel (fst (snd x)) m \<in> set (passEvents deps buf s1 port filePath w1)"
    by (rule second_pass(5) [OF assms])
next
  fix c show "Disconnect c \<notin> set (passEvents deps buf s1 port filePath w1)"
    by (rule second_pass(2) [OF assms])
next
  fix m assume n: "NewCluster m \<in> set (passEvents deps buf s1 port filePath w1)"
  from second_pass(3) [OF assms n]
  show "\<not> map_has (contextName m) s1"
    and "map_get (passModels deps buf filePath w1) (contextName m) = Some m"
    by simp_all
next
  assume "set (map_keys (passModels deps buf filePath w)) \<subseteq> set (map_keys s1)"
  then have k: "fst ` set (passModels deps buf filePath w) \<subseteq> fst ` set s1" by simp
  show "fst (computeDiff deps buf s1 port filePath w1) = s1"
    using second_pass(4) [OF assms k] by simp
  fix m show "NewCluster m \<notin> set (passEvents deps buf s1 port filePath w1)"
    using second_pass(4) [OF assms k] by simp
qed

theorem second_pass_keeps_records_witness:
  "distinct (map_keys ([] :: RootSource)) \<and>
   set (map_keys (passModels example ''ab'' ''c.yaml'' world0)) \<subseteq>
     set (map_keys (fst (computeDiff example ''ab'' [] 0 ''c.yaml'' world0))) \<and>
   fst (computeDiff example ''ab'' (fst (computeDiff example ''ab'' [] 0 ''c.yaml'' world0)) 0 ''c.yaml''
          (snd (computeDiff example ''ab'' [] 0 ''c.yaml'' world0))) =
     fst (computeDiff example ''ab'' [] 0 ''c.yaml'' world0) \<and>
   Disconnect 0 \<notin> set (passEvents example ''ab'' (fst (computeDiff example ''ab'' [] 0 ''c.yaml'' world0)) 0
          ''c.yaml'' (snd (computeDiff example ''ab'' [] 0 ''c.yaml'' world0)))"
proof -
  have d: "distinct (map_keys ([] :: RootSource))" by simp
  have c: "computeDiff example ''ab'' [] 0 ''c.yaml'' world0 =
     (fst (computeDiff example ''ab'' [] 0 ''c.yaml'' world0), snd (computeDiff example ''ab'' [] 0 ''c.yaml'' world0))"
    by simp
  have k: "set (map_keys (passModels example ''ab'' ''c.yaml'' world0)) \<subseteq>
     set (map_keys (fst (computeDiff example ''ab'' [] 0 ''c.yaml'' world0)))"
    by (simp add: passModels_def example_simps)
  note t = second_pass_keeps_records [OF d c]
  from t k have "fst (computeDiff example ''ab'' (fst (computeDiff example ''ab'' [] 0 ''c.yaml'' world0)) 0 ''c.yaml''
          (snd (computeDiff example ''ab'' [] 0 ''c.yaml'' world0))) =
     fst (computeDiff example ''ab'' [] 0 ''c.yaml'' world0)"
    by blast
  moreover from t have "Disconnect 0 \<notin> set (passEvents example ''ab'' (fst (computeDiff example ''ab'' [] 0 ''c.yaml'' world0)) 0
          ''c.yaml'' (snd (computeDiff example ''ab'' [] 0 ''c.yaml'' world0)))"
    by blast
  ultimately show ?thesis using d k by (intro conjI)
qed


subsection \<open>Duplicate context names\<close>

lemma last_entry_wins:
  "map_of (rev (map (\<lambda>m. (f m, m)) xs)) n =
     (if filter (\<lambda>m. f m = n) xs = [] then None else Some (last (filter (\<lambda>m. f m = n) xs)))"
  by (induction xs rule: rev_induct) auto

lemma passModels_lookup:
  "parseConfigs deps buf = Inr configs \<Longrightarrow>
   map_get (passModels deps buf filePath w) n =
     (if filter (\<lambda>m. contextName m = n) (fst (configsToModels deps configs filePath w)) = [] then None
      else Some (last (filter (\<lambda>m. contextName m = n) (fst (configsToModels deps configs filePath w)))))"
  by (simp add: passModels_def Map_new_lookup last_entry_wins)

lemma map_fst_enumerate_add:
  "map (\<lambda>x. (u::nat) + fst x) (enumerate 0 cs) = map (\<lambda>i. u + i) [0..<length cs]"
proof -
  have "map (\<lambda>x. u + fst x) (enumerate 0 cs) = map (\<lambda>i. u + i) (map fst (enumerate 0 cs))"
    unfolding map_map comp_def ..
  then show ?thesis by simp
qed

lemma configsToModels_ids:
  "map model_id (fst (configsToModels deps configs filePath w)) =
     map (\<lambda>i. next_uuid w + i) [0..<length (filter (passes deps) configs)]"
proof -
  have "map model_id (fst (configsToModels deps configs filePath w)) =
     map (\<lambda>x. next_uuid w + fst x) (enumerate 0 (filter (passes deps) configs))"
    by (simp add: configsToModels_eq modelOf_def case_prod_unfold comp_def)
  also note map_fst_enumerate_add
  finally show ?thesis .
qed

lemma configsToModels_distinct: "distinct (fst (configsToModels deps configs filePath w))"
proof -
  have "distinct (map model_id (fst (configsToModels deps configs filePath w)))"
    unfolding configsToModels_ids by (simp add: distinct_map inj_on_def)
  then show ?thesis by (rule distinct_map [THEN iffD1, THEN conjunct1])
qed

lemma distinct_keys_at_most_one:
  "distinct (map fst xs) \<Longrightarrow> length (filter (\<lambda>x. fst x = n) xs) \<le> 1"
proof (induction xs)
  case Nil
  then show ?case by simp
next
  case (Cons a xs)
  show ?case
  proof (cases "fst a = n")
    case True
    with Cons.prems have "n \<notin> fst ` set xs" by auto
    then have "filter (\<lambda>x. fst x = n) xs = []" by (auto simp: filter_empty_conv)
    with True show ?thesis by simp
  next
    case False
    with Cons show ?thesis by simp
  qed
qed

lemma map_of_filter_keys:
  "map_of (filter (\<lambda>x. Q (fst x)) xs) n = (if Q n then map_of xs n else None)"
  by (induction xs) auto

lemma passEvents_models:
  assumes p: "parseConfigs deps buf = Inr configs" and d: "distinct (map_keys source)"
    and e: "NewCluster m \<in> set (passEvents deps buf source port filePath w) \<or>
            UpdateModel r m \<in> set (passEvents deps buf source port filePath w)"
  shows "\<exists>k. (k, m) \<in> set (passModels deps buf filePath w)"
proof -
  let ?models = "passModels deps buf filePath w"
  let ?new = "filter (\<lambda>x. fst x \<notin> fst ` set source) ?models"
  note ev = passEvents_parsed [OF p d, of port filePath w]
  from e consider x where "x \<in> set source"
      "NewCluster m \<in> set (diffEvents filePath ?models x) \<or> UpdateModel r m \<in> set (diffEvents filePath ?models x)"
    | "NewCluster m \<in> set (addNewEvents deps filePath (next_cluster w) ?new)"
    | "UpdateModel r m \<in> set (addNewEvents deps filePath (next_cluster w) ?new)"
    unfolding ev by (auto simp: validationLog_def)
  then show ?thesis
  proof cases
    case 1
    then have "map_get ?models (fst x) = Some m"
      by (auto simp: diffEvents_def split: option.splits)
    then have "(fst x, m) \<in> set ?models" by (rule map_of_SomeD)
    then show ?thesis ..
  next
    case 2
    from addNewEvents_NewCluster_only [OF this] show ?thesis by auto
  next
    case 3
    have "UpdateModel r m \<notin> set (addNewEvents deps filePath k ms)" for k ms
      by (induction ms arbitrary: k) (auto simp: addEvents_def)
    with 3 show ?thesis by simp
  qed
qed


lemma duplicate_names:
  assumes p: "parseConfigs deps buf = Inr configs" and d: "distinct (map_keys source)"
    and ms: "ms = filter (\<lambda>m. contextName m = n) (fst (configsToModels deps configs filePath w))"
    and ne: "ms \<noteq> []"
  shows "length (filter (\<lambda>x. fst x = n) (fst (computeDiff deps buf source port filePath w))) \<le> 1" (is ?A)
    and "map_get (passModels deps buf filePath w) n = Some (last ms)" (is ?B)
    and "map_has n source \<Longrightarrow>
           map_get (fst (computeDiff deps buf source port filePath w)) n = map_get source n \<and>
           (\<exists>v. map_get source n = Some v \<and>
                UpdateModel (fst v) (last ms) \<in> set (passEvents deps buf source port filePath w))"
    and "\<not> map_has n source \<Longrightarrow> constructs deps (last ms) \<Longrightarrow>
           (\<exists>c. next_cluster w \<le> c \<and>
                map_get (fst (computeDiff deps buf source port filePath w)) n =
                  Some (c, entityFor deps filePath c (last ms)) \<and>
                SourceSet n c \<in> set (passEvents deps buf source port filePath w)) \<and>
           NewCluster (last ms) \<in> set (passEvents deps buf source port filePath w)"
    and "\<not> map_has n source \<Longrightarrow> \<not> constructs deps (last ms) \<Longrightarrow>
           map_get (fst (computeDiff deps buf source port filePath w)) n = None"
    and "m \<in> set (butlast ms) \<Longrightarrow>
           NewCluster m \<notin> set (passEvents deps buf source port filePath w) \<and>
           UpdateModel r m \<notin> set (passEvents deps buf source port filePath w)"
proof -
  let ?models = "passModels deps buf filePath w"
  let ?new = "filter (\<lambda>x. fst x \<notin> fst ` set source) ?models"
  let ?kept = "filter (\<lambda>x. map_get ?models (fst x) \<noteq> None) source"
  let ?w2 = "(snd (configsToModels deps configs filePath w))
          \<lparr>trace := trace (snd (configsToModels deps configs filePath w)) @
             concat (map (diffEvents filePath ?models) source)\<rparr>"
  let ?result = "fst (computeDiff deps buf source port filePath w)"
  note ev = passEvents_parsed [OF p d, of port filePath w]
  have res: "?result = fst (fold (addCluster deps filePath) ?new (?kept, ?w2))"
    unfolding computeDiff_parsed [OF p d] addNew_def ..
  have dm: "distinct (map_keys ?models)" by (rule passModels_distinct)
  show ?A
    by (rule distinct_keys_at_most_one) (rule computeDiff_distinct [OF d])
  show B: ?B
    using ne by (simp add: passModels_lookup [OF p] ms)
  then have inm: "(n, last ms) \<in> set ?models" by (rule map_of_SomeD)
  {
    assume h: "map_has n source"
    then have "n \<notin> fst ` set ?new" by force
    then have "map_get ?result n = map_get ?kept n"
      unfolding res by (rule fold_addCluster_other)
    also have "\<dots> = (if map_get ?models n \<noteq> None then map_get source n else None)"
      by (rule map_of_filter_keys [where Q = "\<lambda>k. map_get ?models k \<noteq> None"])
    also have "\<dots> = map_get source n"
      using B by simp
    finally have 1: "map_get ?result n = map_get source n" .
    from h d obtain v where v: "(n, v) \<in> set source" "map_get source n = Some v" by auto
    have "UpdateModel (fst v) (last ms) \<in> set (diffEvents filePath ?models (n, v))"
      using B by (simp add: diffEvents_def)
    with v(1) have "UpdateModel (fst v) (last ms) \<in> set (passEvents deps buf source port filePath w)"
      unfolding ev by fastforce
    with 1 v(2)
    show "map_get ?result n = map_get source n \<and>
           (\<exists>v. map_get source n = Some v \<and>
                UpdateModel (fst v) (last ms) \<in> set (passEvents deps buf source port filePath w))"
      by blast
  }
  {
    assume h: "\<not> map_has n source" and c: "constructs deps (last ms)"
    from h inm have i: "(n, last ms) \<in> set ?new" by simp
    have dn: "distinct (map fst ?new)" using dm by (rule distinct_map_filter)
    have nc: "next_cluster ?w2 = next_cluster w" by (simp add: configsToModels_eq)
    from fold_addCluster_new [OF dn i c, of ?w2 filePath ?kept]
    obtain k where k: "next_cluster w \<le> k"
      "map_get ?result n = Some (k, entityFor deps filePath k (last ms))"
      "SourceSet n k \<in> set (addNewEvents deps filePath (next_cluster w) ?new)"
      unfolding res nc by blast
    from k(3) have "SourceSet n k \<in> set (passEvents deps buf source port filePath w)"
      unfolding ev by simp
    moreover from addNewEvents_NewCluster [OF i, of deps filePath "next_cluster w"]
    have "NewCluster (last ms) \<in> set (passEvents deps buf source port filePath w)"
      unfolding ev by simp
    ultimately
    show "(\<exists>c. next_cluster w \<le> c \<and>
                map_get ?result n = Some (c, entityFor deps filePath c (last ms)) \<and>
                SourceSet n c \<in> set (passEvents deps buf source port filePath w)) \<and>
           NewCluster (last ms) \<in> set (passEvents deps buf source port filePath w)"
      using k(1,2) by blast
  }
  {
    assume h: "\<not> map_has n source" and c: "\<not> constructs deps (last ms)"
    have "n \<notin> fst ` set ?result"
      unfolding computeDiff_keys [OF p d] using h c B by simp
    then show "map_get ?result n = None" by (simp add: map_of_eq_None_iff)
  }
  {
    assume m: "m \<in> set (butlast ms)"
    have "distinct ms" unfolding ms using configsToModels_distinct by (rule distinct_filter)
    then have "distinct (butlast ms @ [last ms])" using ne by simp
    with m have neq: "m \<noteq> last ms" by auto
    from m have "m \<in> set ms" by (rule in_set_butlastD)
    then have cn: "contextName m = n" by (simp add: ms)
    have "\<not> (NewCluster m \<in> set (passEvents deps buf source port filePath w) \<or>
             UpdateModel r m \<in> set (passEvents deps buf source port filePath w))"
    proof
      assume "NewCluster m \<in> set (passEvents deps buf source port filePath w) \<or>
             UpdateModel r m \<in> set (passEvents deps buf source port filePath w)"
      from passEvents_models [OF p d this] obtain k where k: "(k, m) \<in> set ?models" ..
      then have "k = n" using cn by (simp add: passModels_entries [OF k])
      with k dm have "map_get ?models n = Some m" by simp
      with B neq show False by simp
    qed
    then show "NewCluster m \<notin> set (passEvents deps buf source port filePath w) \<and>
           UpdateModel r m \<notin> set (passEvents deps buf source port filePath w)"
      by blast
  }
qed


text \<open>
  \<^bold>\<open>C10\<close> fails as stated where the construction fails.  The buffer \<open>nn\<close> parses into
  two valid definitions of the context \<open>n\<close>; the cluster of \<open>n\<close> is constructed without
  an \<^verbatim>\<open>apiUrl\<close>, so the pass over an empty map keeps no record for the name.
\<close>

theorem duplicate_names_counterexample:
  "parseConfigs example ''nn'' = Inr [''n'', ''n''] \<and>
   map contextName (fst (configsToModels example [''n'', ''n''] ''c.yaml'' world0)) = [''n'', ''n''] \<and>
   map_get (fst (computeDiff example ''nn'' [] 0 ''c.yaml'' world0)) ''n'' = None"
  by (simp add: example_simps)

text \<open>
  \<^bold>\<open>C10, amended.\<close> Let a buffer parse into two or more valid definitions of the name
  \<open>n\<close>, and let \<open>ms\<close> be their models in parse order.  The pass keeps at most one record
  for \<open>n\<close>, and the only model of that name it uses is the last one: the models of the
  earlier definitions reach neither the constructor nor \<^verbatim>\<open>updateModel\<close>.  If \<open>n\<close> was in
  the map, its record stays and is updated with the last model; if \<open>n\<close> is new and the
  construction from the last model succeeds, the map gets one record for \<open>n\<close>, built from
  that model; if the construction fails, the map has no record for \<open>n\<close>.
\<close>

theorem duplicate_names_last_wins:
  assumes "parseConfigs deps buf = Inr configs" and "distinct (map_keys source)"
    and "ms = filter (\<lambda>m. contextName m = n) (fst (configsToModels deps configs filePath w))"
    and "2 \<le> length ms"
  shows "length (filter (\<lambda>x. fst x = n) (fst (computeDiff deps buf source port filePath w))) \<le> 1 \<and>
         map_get (passModels deps buf filePath w) n = Some (last ms) \<and>
         (map_has n source \<longrightarrow>
            map_get (fst (computeDiff deps buf source port filePath w)) n = map_get source n \<and>
            (\<exists>v. map_get source n = Some v \<and>
                 UpdateModel (fst v) (last ms) \<in> set (passEvents deps buf source port filePath w))) \<and>
         (\<not> map_has n source \<and> constructs deps (last ms) \<longrightarrow>
            (\<exists>c. next_cluster w \<le> c \<and>
                 map_get (fst (computeDiff deps buf source port filePath w)) n =
                   Some (c, entityFor deps filePath c (last ms)) \<and>
                 SourceSet n c \<in> set (passEvents deps buf source port filePath w)) \<and>
            NewCluster (last ms) \<in> set (passEvents deps buf source port filePath w)) \<and>
         (\<not> map_has n source \<and> \<not> constructs deps (last ms) \<longrightarrow>
            map_get (fst (computeDiff deps buf source port filePath w)) n = None) \<and>
         (\<forall>m \<in> set (butlast ms). \<forall>r.
            NewCluster m \<notin> set (passEvents deps buf source port filePath w) \<and>
            UpdateModel r m \<notin> set (passEvents deps buf source port filePath w))"
proof -
  from assms(4) have ne: "ms \<noteq> []" by auto
  note t = duplicate_names [OF assms(1,2,3) ne]
  show ?thesis
  proof (intro conjI impI ballI allI)
    show "length (filter (\<lambda>x. fst x = n) (fst (computeDiff deps buf source port filePath w))) \<le> 1"
      by (rule t(1))
    show "map_get (passModels deps buf filePath w) n = Some (last ms)"
      by (rule t(2))
  next
    assume h: "map_has n source"
    from t(3) [OF h]
    show "map_get (fst (computeDiff deps buf source port filePath w)) n = map_get source n"
      and "\<exists>v. map_get source n = Some v \<and>
                 UpdateModel (fst v) (last ms) \<in> set (passEvents deps buf source port filePath w)"
      by blast+
  next
    assume h: "\<not> map_has n source \<and> constructs deps (last ms)"
    then have h1: "\<not> map_has n source" and h2: "constructs deps (last ms)" by blast+
    from t(4) [OF h1 h2]
    show "\<exists>c. next_cluster w \<le> c \<and>
                 map_get (fst (computeDiff deps buf source port filePath w)) n =
                   Some (c, entityFor deps filePath c (last ms)) \<and>
                 SourceSet n c \<in> set (passEvents deps buf source port filePath w)"
      and "NewCluster (last ms) \<in> set (passEvents deps buf source port filePath w)"
      by blast+
  next
    assume h: "\<not> map_has n source \<and> \<not> constructs deps (last ms)"
    then have h1: "\<not> map_has n source" and h2: "\<not> constructs deps (last ms)" by blast+
    show "map_get (fst (computeDiff deps buf source port filePath w)) n = None"
      by (rule t(5) [OF h1 h2])
  next
    fix m r assume m: "m \<in> set (butlast ms)"
    from t(6) [OF m, where r = r and port = port]
    show "NewCluster m \<notin> set (passEvents deps buf source port filePath w)"
      and "UpdateModel r m \<notin> set (passEvents deps buf source port filePath w)"
      by blast+
  qed
qed

theorem duplicate_names_last_wins_witness:
  "parseConfigs example ''aa'' = Inr [''a'', ''a''] \<and>
   distinct (map_keys ([] :: RootSource)) \<and>
   [\<lparr>model_id = 0, kubeConfigPath = ''c.yaml'', contextName = ''a''\<rparr>,
    \<lparr>model_id = 1, kubeConfigPath = ''c.yaml'', contextName = ''a''\<rparr>] =
     filter (\<lambda>m. contextName m = ''a'') (fst (configsToModels example [''a'', ''a''] ''c.yaml'' world0)) \<and>
   2 \<le> length [\<lparr>model_id = 0, kubeConfigPath = ''c.yaml'', contextName = ''a''\<rparr>,
                \<lparr>model_id = 1, kubeConfigPath = ''c.yaml'', contextName = ''a''\<rparr>] \<and>
   map_get (passModels example ''aa'' ''c.yaml'' world0) ''a'' =
     Some \<lparr>model_id = 1, kubeConfigPath = ''c.yaml'', contextName = ''a''\<rparr> \<and>
   NewCluster \<lparr>model_id = 0, kubeConfigPath = ''c.yaml'', contextName = ''a''\<rparr>
     \<notin> set (passEvents example ''aa'' [] 0 ''c.yaml'' world0) \<and>
   map_get (fst (computeDiff example ''aa'' [] 0 ''c.yaml'' world0)) ''a'' =
     Some (0, entityFor example ''c.yaml'' 0 \<lparr>model_id = 1, kubeConfigPath = ''c.yaml'', contextName = ''a''\<rparr>)"
proof -
  let ?m0 = "\<lparr>model_id = 0, kubeConfigPath = ''c.yaml'', contextName = ''a''\<rparr>"
  let ?m1 = "\<lparr>model_id = 1, kubeConfigPath = ''c.yaml'', contextName = ''a''\<rparr>"
  have p: "parseConfigs example ''aa'' = Inr [''a'', ''a'']"
    by (simp add: example_simps)
  have d: "distinct (map_keys ([] :: RootSource))" by simp
  have ms: "[?m0, ?m1] =
     filter (\<lambda>m. contextName m = ''a'') (fst (configsToModels example [''a'', ''a''] ''c.yaml'' world0))"
    by (simp add: example_simps)
  have l: "2 \<le> length [?m0, ?m1]" by simp
  note t = duplicate_names_last_wins [OF p d ms l, of 0]
  from t have a: "map_get (passModels example ''aa'' ''c.yaml'' world0) ''a'' = Some ?m1"
    by simp
  from t have "\<forall>m \<in> set (butlast [?m0, ?m1]). \<forall>r.
            NewCluster m \<notin> set (passEvents example ''aa'' [] 0 ''c.yaml'' world0) \<and>
            UpdateModel r m \<notin> set (passEvents example ''aa'' [] 0 ''c.yaml'' world0)"
    by (elim conjE)
  then have b: "NewCluster ?m0 \<notin> set (passEvents example ''aa'' [] 0 ''c.yaml'' world0)"
    by simp
  have c: "map_get (fst (computeDiff example ''aa'' [] 0 ''c.yaml'' world0)) ''a'' =
     Some (0, entityFor example ''c.yaml'' 0 ?m1)"
    by (simp add: example_simps entityFor_def)
  from p d ms l a b c show ?thesis by (intro conjI)
qed


section \<open>Properties of overlapping reads\<close>

lemma onlyLatestOpen_initial: "onlyLatestOpen (watchFileChanges filePath port)"
  by (simp add: onlyLatestOpen_def watchFileChanges_def)

lemma list_all_close_last:
  "list_all closed (butlast rs) \<Longrightarrow> rs \<noteq> [] \<Longrightarrow>
   list_all closed (rs[length rs - Suc 0 := (rs ! (length rs - Suc 0))\<lparr>closed := True\<rparr>])"
proof (induction rs rule: rev_induct)
  case Nil
  then show ?case by simp
next
  case (snoc x xs)
  then show ?case by simp
qed

lemma butlast_update_last:
  "butlast (rs[length rs - Suc 0 := x]) = butlast rs"
  by (induction rs rule: rev_induct) simp_all

lemma callStopPrevious_closes:
  assumes "onlyLatestOpen u"
  shows "list_all closed (readers (callStopPrevious u))"
    and "length (readers (callStopPrevious u)) = length (readers u)"
    and "stopPrevious (callStopPrevious u) = stopPrevious u"
    and "butlast (readers (callStopPrevious u)) = butlast (readers u)"
    and "(readers (callStopPrevious u) = []) = (readers u = [])"
proof -
  show "(readers (callStopPrevious u) = []) = (readers u = [])"
    by (simp add: callStopPrevious_def stopReader_def split: option.splits)
  show "list_all closed (readers (callStopPrevious u))"
  proof (cases "readers u = []")
    case True
    with assms show ?thesis by (simp add: onlyLatestOpen_def callStopPrevious_def)
  next
    case False
    with assms have "list_all closed (butlast (readers u))"
      and "stopPrevious u = Some (length (readers u) - 1)"
      by (simp_all add: onlyLatestOpen_def)
    with False show ?thesis
      by (simp add: callStopPrevious_def stopReader_def list_all_close_last)
  qed
  show "length (readers (callStopPrevious u)) = length (readers u)"
    by (simp add: callStopPrevious_def stopReader_def split: option.splits)
  show "stopPrevious (callStopPrevious u) = stopPrevious u"
    by (simp add: callStopPrevious_def stopReader_def split: option.splits)
  show "butlast (readers (callStopPrevious u)) = butlast (readers u)"
    using assms
    by (cases "readers u = []")
       (simp_all add: onlyLatestOpen_def callStopPrevious_def stopReader_def butlast_update_last)
qed

lemma onWatcher_onlyLatestOpen:
  assumes "onlyLatestOpen u"
  shows "onlyLatestOpen (onWatcher e u)"
proof (cases e)
  case Change
  then show ?thesis
    using callStopPrevious_closes(1) [OF assms]
    by (simp add: onlyLatestOpen_def diffChangedConfig_def)
next
  case Add
  then show ?thesis
    using callStopPrevious_closes(1) [OF assms]
    by (simp add: onlyLatestOpen_def diffChangedConfig_def)
next
  case Unlink
  then show ?thesis
    using assms callStopPrevious_closes(2,3,4,5) [OF assms]
    by (simp add: onlyLatestOpen_def)
qed

lemma list_all_butlast_update:
  "list_all closed (butlast rs) \<Longrightarrow> closed x \<or> closed x = closed (rs ! r) \<Longrightarrow> r < length rs \<Longrightarrow>
   list_all closed (butlast (rs[r := x]))"
  by (auto simp: list_all_length nth_butlast nth_list_update)

lemma onStream_onlyLatestOpen:
  assumes "onlyLatestOpen u" and "r < length (readers u)"
  shows "onlyLatestOpen (fst (onStream deps r e u w))"
proof (cases e)
  case (Data chunk)
  then show ?thesis
    using assms by (simp add: onlyLatestOpen_def list_all_butlast_update)
next
  case Close
  then show ?thesis
    using assms by (simp add: onlyLatestOpen_def list_all_butlast_update)
next
  case End
  then show ?thesis
    using assms by (simp add: onlyLatestOpen_def split: prod.splits)
qed

lemma unitStep_onlyLatestOpen:
  "onlyLatestOpen (fst st) \<Longrightarrow> onlyLatestOpen (fst (unitStep deps ev st))"
  by (cases st; cases ev) (simp_all add: onWatcher_onlyLatestOpen onStream_onlyLatestOpen)

lemma unitRun_onlyLatestOpen:
  "onlyLatestOpen (fst st) \<Longrightarrow> onlyLatestOpen (fst (unitRun deps evs st))"
  unfolding unitRun_def
  by (induction evs arbitrary: st) (simp_all add: unitStep_onlyLatestOpen)

lemma stale_stream_is_closed:
  "onlyLatestOpen u \<Longrightarrow> Suc r < length (readers u) \<Longrightarrow> closed (readers u ! r)"
  by (simp add: onlyLatestOpen_def list_all_length nth_butlast)

text \<open>
  \<^bold>\<open>C5.\<close> In every state a unit reaches from its creation, by any interleaving of
  watcher events and stream events, a stream that is not the one opened last has been
  cancelled: its \<^verbatim>\<open>closed\<close> flag is set.  Its \<^verbatim>\<open>end\<close> event, whenever it arrives, changes
  nothing at all, and none of its events changes the unit's map or the world: only the
  read started last can reach \<^verbatim>\<open>computeDiff\<close>.
\<close>

theorem cancelled_read_never_applied:
  assumes "unitRun deps evs (watchFileChanges filePath port, w0) = (u, w)"
    and "Suc r < length (readers u)"
  shows "closed (readers u ! r) \<and>
         stopPrevious u = Some (length (readers u) - 1) \<and>
         unitStep deps (Stream r End) (u, w) = (u, w) \<and>
         unit_source (fst (unitStep deps (Stream r e) (u, w))) = unit_source u \<and>
         snd (unitStep deps (Stream r e) (u, w)) = w"
proof -
  have "onlyLatestOpen (fst (unitRun deps evs (watchFileChanges filePath port, w0)))"
    by (rule unitRun_onlyLatestOpen) (simp add: onlyLatestOpen_initial)
  then have inv: "onlyLatestOpen u" by (simp add: assms(1))
  from stale_stream_is_closed [OF inv assms(2)] have c: "closed (readers u ! r)" .
  from inv assms(2) have s: "stopPrevious u = Some (length (readers u) - 1)"
    by (auto simp: onlyLatestOpen_def)
  from assms(2) have r: "r < length (readers u)" by simp
  have "unitStep deps (Stream r End) (u, w) = (u, w)"
    using c r by simp
  moreover have "unit_source (fst (unitStep deps (Stream r e) (u, w))) = unit_source u \<and>
         snd (unitStep deps (Stream r e) (u, w)) = w"
    using c r by (cases e) simp_all
  ultimately show ?thesis using c s by blast
qed

lemmas unit_simps =
  unitRun_def watchFileChanges_def diffChangedConfig_def callStopPrevious_def stopReader_def

theorem cancelled_read_never_applied_witness:
  "Suc 0 < length (readers (fst (unitRun example
       [Watcher Add, Stream 0 (Data ''a''), Watcher Change, Stream 1 (Data ''b'')]
       (watchFileChanges ''c.yaml'' 0, world0)))) \<and>
   unitStep example (Stream 0 End)
     (unitRun example [Watcher Add, Stream 0 (Data ''a''), Watcher Change, Stream 1 (Data ''b'')]
       (watchFileChanges ''c.yaml'' 0, world0)) =
     unitRun example [Watcher Add, Stream 0 (Data ''a''), Watcher Change, Stream 1 (Data ''b'')]
       (watchFileChanges ''c.yaml'' 0, world0) \<and>
   unit_source (fst (unitStep example (Stream 1 End)
     (unitRun example [Watcher Add, Stream 0 (Data ''a''), Watcher Change, Stream 1 (Data ''b'')]
       (watchFileChanges ''c.yaml'' 0, world0)))) =
     [(''b'', 0, entityFor example ''c.yaml'' 0 \<lparr>model_id = 0, kubeConfigPath = ''c.yaml'', contextName = ''b''\<rparr>)]"
proof -
  let ?run = "unitRun example [Watcher Add, Stream 0 (Data ''a''), Watcher Change, Stream 1 (Data ''b'')]
       (watchFileChanges ''c.yaml'' 0, world0)"
  have e: "?run = (fst ?run, snd ?run)" by simp
  have l: "Suc 0 < length (readers (fst ?run))"
    by (simp add: unit_simps)
  from cancelled_read_never_applied [OF e l, of End]
  have a: "unitStep example (Stream 0 End) ?run = ?run" by simp
  have b: "unit_source (fst (unitStep example (Stream 1 End) ?run)) =
     [(''b'', 0, entityFor example ''c.yaml'' 0 \<lparr>model_id = 0, kubeConfigPath = ''c.yaml'', contextName = ''b''\<rparr>)]"
    by (simp add: unit_simps example_simps entityFor_def)
  from l a b show ?thesis by (intro conjI)
qed


section \<open>Properties of the sync manager\<close>

lemmas manager_simps =
  startSync_def startNewSync_def stopOldSync_def initial_def unitEvent_def removeSyncingFile_def
  notifyObservers_def addComputedSource_def removeSource_def getSyncName_def Let_def

lemma startSync_syncing: "syncing (startSync port s)"
  by (simp add: startSync_def Let_def)

text \<open>
  \<^bold>\<open>C9.\<close> In a state in which syncing is active, \<^verbatim>\<open>startSync\<close> returns the state as it
  is: no unit is created, no source registered, no listener added to the watch list.
  Every call of \<^verbatim>\<open>startSync\<close> leaves syncing active, so a second call, with whatever
  port, is such a call.
\<close>

theorem startSync_idempotent:
  "syncing s \<Longrightarrow>
   startSync port s = s \<and>
   units (startSync port s) = units s \<and>
   registry (startSync port s) = registry s \<and>
   sources (startSync port s) = sources s \<and>
   observers (startSync port s) = observers s \<and>
   startSync port (startSync port' s') = startSync port' s'"
  using startSync_syncing [of port' s'] by (simp add: startSync_def)

theorem startSync_idempotent_witness:
  "syncing (startSync 0 (initial [''c.yaml''])) \<and>
   startSync 1 (startSync 0 (initial [''c.yaml''])) = startSync 0 (initial [''c.yaml'']) \<and>
   length (units (startSync 1 (startSync 0 (initial [''c.yaml''])))) = 1 \<and>
   map fst (registry (startSync 1 (startSync 0 (initial [''c.yaml''])))) = [''lens:kube-sync:c.yaml''] \<and>
   observers (startSync 1 (startSync 0 (initial [''c.yaml'']))) = [(0, True)]"
proof -
  have s: "syncing (startSync 0 (initial [''c.yaml'']))"
    by (simp add: manager_simps)
  from startSync_idempotent [OF s, of 1]
  have e: "startSync 1 (startSync 0 (initial [''c.yaml''])) = startSync 0 (initial [''c.yaml''])"
    by simp
  have "length (units (startSync 0 (initial [''c.yaml'']))) = 1"
    "map fst (registry (startSync 0 (initial [''c.yaml'']))) = [''lens:kube-sync:c.yaml'']"
    "observers (startSync 0 (initial [''c.yaml''])) = [(0, True)]"
    by (simp_all add: manager_simps emit_def)
  with s e show ?thesis by simp
qed

lemma deleteScenario_eq:
  "deleteScenario =
     \<lparr>next_uuid = 1, next_cluster = 1,
      trace =
        [Log Info ''[KUBECONFIG-SYNC]: starting requested syncs'' [],
         Log Info ''[KUBECONFIG-SYNC]: starting sync of file'' [(''filePath'', ''c.yaml'')],
         NewCluster \<lparr>model_id = 0, kubeConfigPath = ''c.yaml'', contextName = ''a''\<rparr>,
         SourceSet ''a'' 0,
         Log Debug ''[KUBECONFIG-SYNC]: Added new cluster from sync''
           [(''filePath'', ''c.yaml''), (''contextName'', ''a'')]],
      units =
        [\<lparr>unit_filePath = ''c.yaml'', unit_port = 0,
          unit_source =
            [(''a'', 0, entityFor example ''c.yaml'' 0
                         \<lparr>model_id = 0, kubeConfigPath = ''c.yaml'', contextName = ''a''\<rparr>)],
          readers = [\<lparr>bufs = [''a''], closed = True\<rparr>, \<lparr>bufs = [], closed = False\<rparr>],
          stopPrevious = Some 1, watching = True\<rparr>],
      registry = [(''lens:kube-sync:c.yaml'', unitSource 0)],
      sources = [(''c.yaml'', 0)], syncing = True, syncListDisposer = Some 0,
      files = [''c.yaml''], observers = [(0, True)]\<rparr>"
  by (simp add: deleteScenario_def manager_simps unit_simps example_simps entityFor_def)

lemma stopOldSync_active:
  assumes "map_has filePath (sources s)"
  shows "stopOldSync filePath s =
     s\<lparr>trace := trace s @ [Log Info ''[KUBECONFIG-SYNC]: stopping sync of file'' [(''filePath'', filePath)]],
       sources := map_delete filePath (sources s),
       registry := removeSource (getSyncName filePath) (registry s)\<rparr>"
  using assms by (simp add: stopOldSync_def Let_def emit_def)

text \<open>
  \<^bold>\<open>C2\<close> fails as stated.  In the state above the watch list loses \<open>c.yaml\<close> and the
  manager's listener handles the \<^verbatim>\<open>delete\<close> event.  The source is unregistered, but the
  second read is still not cancelled, the record of context \<open>a\<close> is still in the unit's
  map and \<^verbatim>\<open>disconnect()\<close> was never called on its cluster; the watcher is still
  watching as well.
\<close>

theorem delete_event_counterexample:
  "map_has ''c.yaml'' (sources deleteScenario) \<and>
   registry (removeSyncingFile ''c.yaml'' deleteScenario) = [] \<and>
   watching (units (removeSyncingFile ''c.yaml'' deleteScenario) ! 0) \<and>
   \<not> closed (readers (units (removeSyncingFile ''c.yaml'' deleteScenario) ! 0) ! 1) \<and>
   unit_source (units (removeSyncingFile ''c.yaml'' deleteScenario) ! 0) =
     [(''a'', 0, entityFor example ''c.yaml'' 0
                  \<lparr>model_id = 0, kubeConfigPath = ''c.yaml'', contextName = ''a''\<rparr>)] \<and>
   Disconnect 0 \<notin> set (trace (removeSyncingFile ''c.yaml'' deleteScenario))"
  by (simp add: deleteScenario_eq removeSyncingFile_def notifyObservers_def stopOldSync_def
      removeSource_def getSyncName_def emit_def Let_def)

text \<open>
  \<^bold>\<open>C2, amended.\<close> For a path with an active unit, the listener's handling of a
  \<^verbatim>\<open>delete\<close> event is \<^verbatim>\<open>stopOldSync\<close>: it takes the unit out of the manager's table and
  unregisters the unit's source from the registry, and logs that.  It leaves the map of
  every unit and every stream as they are (no read is cancelled), and it calls
  \<^verbatim>\<open>disconnect()\<close> on nothing: the only effect appended to the trace is the log line.
\<close>

theorem delete_event_unregisters_only:
  assumes "map_has filePath (sources s)"
  shows "syncListObserver port (SetDelete filePath) s = stopOldSync filePath s \<and>
         \<not> map_has filePath (sources (stopOldSync filePath s)) \<and>
         registry (stopOldSync filePath s) = removeSource (getSyncName filePath) (registry s) \<and>
         \<not> map_has (getSyncName filePath) (registry (stopOldSync filePath s)) \<and>
         map unit_source (units (stopOldSync filePath s)) = map unit_source (units s) \<and>
         map readers (units (stopOldSync filePath s)) = map readers (units s) \<and>
         map stopPrevious (units (stopOldSync filePath s)) = map stopPrevious (units s) \<and>
         trace (stopOldSync filePath s) =
           trace s @ [Log Info ''[KUBECONFIG-SYNC]: stopping sync of file'' [(''filePath'', filePath)]]"
  by (simp add: stopOldSync_active [OF assms] removeSource_def delete_notin_dom)

theorem delete_event_unregisters_only_witness:
  "map_has ''c.yaml'' (sources deleteScenario) \<and>
   sources (syncListObserver 0 (SetDelete ''c.yaml'') deleteScenario) = [] \<and>
   registry (syncListObserver 0 (SetDelete ''c.yaml'') deleteScenario) = [] \<and>
   map readers (units (syncListObserver 0 (SetDelete ''c.yaml'') deleteScenario)) =
     [[\<lparr>bufs = [''a''], closed = True\<rparr>, \<lparr>bufs = [], closed = False\<rparr>]]"
proof -
  have h: "map_has ''c.yaml'' (sources deleteScenario)"
    by (simp add: deleteScenario_eq)
  note t = delete_event_unregisters_only [OF h, of 0]
  from t have e: "syncListObserver 0 (SetDelete ''c.yaml'') deleteScenario = stopOldSync ''c.yaml'' deleteScenario"
    by (rule conjunct1)
  from t have "map readers (units (stopOldSync ''c.yaml'' deleteScenario)) = map readers (units deleteScenario)"
    by (elim conjE)
  then have r: "map readers (units (syncListObserver 0 (SetDelete ''c.yaml'') deleteScenario)) =
     [[\<lparr>bufs = [''a''], closed = True\<rparr>, \<lparr>bufs = [], closed = False\<rparr>]]"
    unfolding e by (simp add: deleteScenario_eq)
  have "sources (stopOldSync ''c.yaml'' deleteScenario) = []"
    "registry (stopOldSync ''c.yaml'' deleteScenario) = []"
    by (simp_all add: deleteScenario_eq stopOldSync_def removeSource_def getSyncName_def emit_def Let_def)
  with h r show ?thesis unfolding e by (intro conjI)
qed

end
